theory Spec2Isabelle
  imports Complex_Main "HOL-Library.Stream"
begin

section \<open>AnimatedGridBackground: the JavaScript primitives the component uses\<close>

text \<open>
  The component draws all its randomness from \<^verbatim>\<open>Math.random()\<close>. Each call is modelled
  as taking the head of a stream of draws and leaving the tail to the next call. A draw is
  a real number; the language guarantees that it lies in the half-open unit interval, which
  is the predicate \<open>unit_draws\<close>. The product of a draw and a length is taken exactly; the
  arithmetic that decides how many cells are curved is rounded as the language rounds it.
\<close>

type_synonym rng = "real stream"

definition unit_draws :: "rng \<Rightarrow> bool" where
  "unit_draws rs \<longleftrightarrow> (\<forall>r \<in> sset rs. 0 \<le> r \<and> r < 1)"

text \<open>\<^verbatim>\<open>Math.floor(Math.random() * n)\<close> for a draw \<open>r\<close> and a length \<open>n\<close>.\<close>

definition random_index :: "real \<Rightarrow> nat \<Rightarrow> int" where
  "random_index r n = \<lfloor>r * real n\<rfloor>"

text \<open>
  A JavaScript \<^verbatim>\<open>Set\<close> of strings is a list without repetitions in insertion order:
  \<^verbatim>\<open>has\<close> is membership, \<^verbatim>\<open>size\<close> is the length, \<^verbatim>\<open>new Set(s)\<close> is the list itself,
  \<^verbatim>\<open>forEach\<close> runs through the list from its head.
\<close>

definition set_add :: "'a \<Rightarrow> 'a list \<Rightarrow> 'a list" where
  "set_add x s = (if x \<in> set s then s else s @ [x])"

definition set_delete :: "'a \<Rightarrow> 'a list \<Rightarrow> 'a list" where
  "set_delete x s = removeAll x s"

text \<open>\<^verbatim>\<open>arr[i]\<close>: \<^verbatim>\<open>undefined\<close> (here \<open>None\<close>) outside the array.\<close>

definition js_nth :: "'a list \<Rightarrow> int \<Rightarrow> 'a option" where
  "js_nth arr i = (if 0 \<le> i \<and> i < int (length arr) then Some (arr ! nat i) else None)"

text \<open>
  \<^verbatim>\<open>arr.splice(i, 1)[0]\<close> together with the array that is left: a negative start counts
  from the end, a start beyond the end removes nothing and yields \<^verbatim>\<open>undefined\<close>.
\<close>

definition js_splice1 :: "int \<Rightarrow> 'a list \<Rightarrow> 'a option \<times> 'a list" where
  "js_splice1 i arr =
     (let n = int (length arr);
          start = (if i < 0 then max (n + i) 0 else min i n)
      in if start < n
         then (Some (arr ! nat start), take (nat start) arr @ drop (Suc (nat start)) arr)
         else (None, arr))"

text \<open>\<^verbatim>\<open>getRandomFrom(arr)\<close> with the draw it consumes.\<close>

definition getRandomFrom :: "'a list \<Rightarrow> real \<Rightarrow> 'a option" where
  "getRandomFrom arr r = js_nth arr (random_index r (length arr))"

definition DEFAULT_COLORS :: "string list" where
  "DEFAULT_COLORS =
     [''from-blue-500/80 to-blue-600/80'',
      ''from-cyan-500/80 to-cyan-600/80'',
      ''from-slate-400/80 to-slate-500/80'',
      ''from-blue-400/80 to-cyan-500/80'',
      ''from-cyan-400/80 to-blue-500/80'']"

section \<open>Numbers\<close>

text \<open>
  A JavaScript number is a binary64 value: a significand of 53 bits and a power of two,
  with the spacing fixed at \<open>pow2 (- 1074)\<close> below \<open>pow2 (- 1022)\<close>. The operators \<^verbatim>\<open>*\<close>
  and \<^verbatim>\<open>/\<close> return the exact result rounded to the nearest such value, a tie going to
  the even significand. \<open>fl\<close> is that rounding, for results below the overflow threshold.
\<close>

text \<open>The number of binary digits of a natural number.\<close>

fun bit_length :: "nat \<Rightarrow> nat" where
  "bit_length n = (if n = 0 then 0 else Suc (bit_length (n div 2)))"

declare bit_length.simps [simp del]

text \<open>The power of two with an integer exponent.\<close>

definition pow2 :: "int \<Rightarrow> real" where
  "pow2 k = (if 0 \<le> k then 2 ^ nat k else 1 / 2 ^ nat (- k))"

text \<open>
  The binary exponent of a positive number: \<open>pow2 (expo x) \<le> x < pow2 (expo x + 1)\<close>.
\<close>

definition expo :: "real \<Rightarrow> int" where
  "expo x =
     (if 1 \<le> x then int (bit_length (nat \<lfloor>x\<rfloor>)) - 1
      else - int (bit_length (nat (\<lceil>1 / x\<rceil> - 1))))"

text \<open>Rounding to the nearest integer, a tie going to the even one.\<close>

definition round_half_even :: "real \<Rightarrow> int" where
  "round_half_even q =
     (let f = \<lfloor>q\<rfloor>; d = q - of_int f
      in if d < 1 / 2 then f else if 1 / 2 < d then f + 1 else if even f then f else f + 1)"

text \<open>Rounding a positive number to 53 significant bits, and any number by symmetry.\<close>

definition fl_pos :: "real \<Rightarrow> real" where
  "fl_pos x =
     (let u = pow2 (max (expo x) (- 1022) - 52)
      in of_int (round_half_even (x / u)) * u)"

definition fl :: "real \<Rightarrow> real" where
  "fl x = (if x = 0 then 0 else if 0 < x then fl_pos x else - fl_pos (- x))"

section \<open>Cells\<close>

text \<open>
  A cell object. Foreground cells carry \<^verbatim>\<open>isCurved\<close>; background cells are built
  without that property, which is \<open>None\<close> here. The colour is what \<^verbatim>\<open>getRandomFrom\<close>
  returned. Grid dimensions and caps are counts, hence natural numbers.
\<close>

record square =
  id_sq :: string
  row :: nat
  col :: nat
  isCurved :: "bool option"
  color :: "string option"

text \<open>The truth value JavaScript gives to \<^verbatim>\<open>sq.isCurved\<close> in a condition.\<close>

definition truthy :: "bool option \<Rightarrow> bool" where
  "truthy b \<longleftrightarrow> b = Some True"

datatype shape = Regular | Rounded

text \<open>The renderer's choice between \<^verbatim>\<open>rounded-full\<close> and \<^verbatim>\<open>rounded-none\<close>.\<close>

definition shapeVariant :: "square \<Rightarrow> shape" where
  "shapeVariant sq = (if truthy (isCurved sq) then Rounded else Regular)"

text \<open>How many cells of a layout the renderer draws rounded.\<close>

definition rounded_cells :: "square list \<Rightarrow> nat" where
  "rounded_cells squares = length (filter (\<lambda>sq. shapeVariant sq = Rounded) squares)"

section \<open>Activation rounds\<close>

text \<open>
  The body of the foreground loop \<^verbatim>\<open>for (let i = 0; i < numToActivate; i++)\<close>; the first
  argument counts the iterations that remain.
\<close>

fun activate_regular ::
  "nat \<Rightarrow> square list \<Rightarrow> string list \<Rightarrow> rng \<Rightarrow> string list \<times> rng" where
  "activate_regular 0 inactiveRegular newActiveIds rs = (newActiveIds, rs)"
| "activate_regular (Suc i) inactiveRegular newActiveIds rs =
     (if length inactiveRegular > 0 then
        (let randomIndex = random_index (shd rs) (length inactiveRegular);
             spliced = js_splice1 randomIndex inactiveRegular
         in activate_regular i (snd spliced)
              (case fst spliced of
                 Some selectedSquare \<Rightarrow> set_add (id_sq selectedSquare) newActiveIds
               | None \<Rightarrow> newActiveIds)
              (stl rs))
      else activate_regular i inactiveRegular newActiveIds rs)"

definition fg_regular_path ::
  "square list \<Rightarrow> nat \<Rightarrow> string list \<Rightarrow> rng \<Rightarrow> string list \<times> rng" where
  "fg_regular_path squares maxActiveSquares activeSquares rs =
     (let inactiveSquares = filter (\<lambda>sq. id_sq sq \<notin> set activeSquares) squares;
          inactiveRegular = filter (\<lambda>sq. \<not> truthy (isCurved sq)) inactiveSquares;
          newActiveIds = activeSquares
      in if length inactiveRegular > 0 then
           (let numToActivate =
                  min (random_index (shd rs) 3 + 1)
                      (int maxActiveSquares - int (length activeSquares))
            in activate_regular (nat numToActivate) inactiveRegular newActiveIds (stl rs))
         else (newActiveIds, rs))"

definition fg_curved_path ::
  "square list \<Rightarrow> string list \<Rightarrow> string list \<Rightarrow> rng \<Rightarrow> string list \<times> rng" where
  "fg_curved_path squares activeSquares newActiveIds rs =
     (let inactiveSquares = filter (\<lambda>sq. id_sq sq \<notin> set activeSquares) squares;
          inactiveCurved = filter (\<lambda>sq. truthy (isCurved sq)) inactiveSquares
      in if length inactiveCurved > 0 then
           (if shd rs < 0.3 then
              (let randomIndex = random_index (shd (stl rs)) (length inactiveCurved)
               in (case js_nth inactiveCurved randomIndex of
                     Some selectedCircle \<Rightarrow> set_add (id_sq selectedCircle) newActiveIds
                   | None \<Rightarrow> newActiveIds,
                   stl (stl rs)))
            else (newActiveIds, stl rs))
         else (newActiveIds, rs))"

text \<open>The set handed to \<^verbatim>\<open>setActiveSquares\<close> by one foreground tick.\<close>

definition fg_round ::
  "square list \<Rightarrow> nat \<Rightarrow> string list \<Rightarrow> rng \<Rightarrow> string list \<times> rng" where
  "fg_round squares maxActiveSquares activeSquares rs =
     (let regular = fg_regular_path squares maxActiveSquares activeSquares rs
      in fg_curved_path squares activeSquares (fst regular) (snd regular))"

text \<open>The background loop, which leaves at the \<^verbatim>\<open>break\<close> once the pool is empty.\<close>

fun activate_background ::
  "nat \<Rightarrow> square list \<Rightarrow> string list \<Rightarrow> rng \<Rightarrow> string list \<times> rng" where
  "activate_background 0 inactive newActiveIds rs = (newActiveIds, rs)"
| "activate_background (Suc i) inactive newActiveIds rs =
     (if length inactive = 0 then (newActiveIds, rs)
      else
        (let randomIndex = random_index (shd rs) (length inactive);
             spliced = js_splice1 randomIndex inactive
         in activate_background i (snd spliced)
              (case fst spliced of
                 Some selected \<Rightarrow> set_add (id_sq selected) newActiveIds
               | None \<Rightarrow> newActiveIds)
              (stl rs)))"

text \<open>
  One background tick: \<open>None\<close> is the early \<^verbatim>\<open>return\<close> that commits nothing and schedules
  nothing, otherwise the set handed to \<^verbatim>\<open>setActiveBackgroundSquares\<close>.
\<close>

definition bg_round ::
  "square list \<Rightarrow> nat \<Rightarrow> string list \<Rightarrow> rng \<Rightarrow> (string list \<times> rng) option" where
  "bg_round backgroundSquares maxBackgroundActive activeBackgroundSquares rs =
     (let inactive = filter (\<lambda>sq. id_sq sq \<notin> set activeBackgroundSquares) backgroundSquares
      in if length inactive = 0 then None
         else
           (let numToActivate =
                  min (random_index (shd rs) 2 + 1)
                      (int maxBackgroundActive - int (length activeBackgroundSquares))
            in Some (activate_background (nat numToActivate) inactive
                       activeBackgroundSquares (stl rs))))"

section \<open>The deferred deactivation callback\<close>

text \<open>
  \<^verbatim>\<open>newActiveIds.forEach((id) => { if (!prev.has(id) || Math.random() > 0.3)
  updated.delete(id); })\<close>: the draw is taken only when \<^verbatim>\<open>prev\<close> has the id.
\<close>

fun deactivate ::
  "string list \<Rightarrow> string list \<Rightarrow> string list \<Rightarrow> rng \<Rightarrow> string list \<times> rng" where
  "deactivate [] prev updated rs = (updated, rs)"
| "deactivate (i # ids) prev updated rs =
     (if i \<notin> set prev then deactivate ids prev (set_delete i updated) rs
      else if shd rs > 0.3 then deactivate ids prev (set_delete i updated) (stl rs)
      else deactivate ids prev updated (stl rs))"

text \<open>The updater passed to the state setter: from \<^verbatim>\<open>prev\<close> to \<^verbatim>\<open>updated\<close>.\<close>

definition deactivation_step :: "string list \<Rightarrow> string list \<Rightarrow> rng \<Rightarrow> string list" where
  "deactivation_step newActiveIds prev rs = fst (deactivate newActiveIds prev prev rs)"

section \<open>Timers of one layer\<close>

text \<open>
  What one of the two animation effects owns: the state cell with the active ids, the
  repeating timer (armed by \<^verbatim>\<open>setInterval\<close>, disarmed by \<^verbatim>\<open>clearInterval\<close>) and the
  one-shot timers made by \<^verbatim>\<open>setTimeout\<close>. No handle of a one-shot timer is kept; each is
  represented by the \<^verbatim>\<open>newActiveIds\<close> its callback closes over. The effect lists the
  state cell among its dependencies: after every change of the cell the effect runs again,
  which clears the repeating timer and arms a new one whose callback reads the current
  cell. So while the component is mounted the repeating timer stays armed, and a tick
  starts from the current cell.
\<close>

record layer =
  activeIds :: "string list"
  interval :: bool
  timeouts :: "string list list"

text \<open>
  What can happen to a layer: the repeating timer fires, the \<open>k\<close>-th pending one-shot
  timer fires, the effect's cleanup function runs, or the effect's body runs. The runtime
  runs the cleanup and then the body after every change of a dependency, and the cleanup
  alone when the component is removed. The first two events come with the draws that
  \<^verbatim>\<open>Math.random()\<close> yields during the callback. What the runtime does with a state
  update that a callback requests after the component was removed is not decided by this
  code; the model applies every update.
\<close>

datatype event = Tick rng | Timeout nat rng | Cleanup | Setup

definition mount :: layer where
  "mount = \<lparr>activeIds = [], interval = True, timeouts = []\<rparr>"

definition commit :: "string list \<Rightarrow> layer \<Rightarrow> layer" where
  "commit newActiveIds s =
     s\<lparr>activeIds := newActiveIds, timeouts := timeouts s @ [newActiveIds]\<rparr>"

definition fire_timeout :: "nat \<Rightarrow> rng \<Rightarrow> layer \<Rightarrow> layer" where
  "fire_timeout k rs s =
     (if k < length (timeouts s)
      then s\<lparr>activeIds := deactivation_step (timeouts s ! k) (activeIds s) rs,
             timeouts := take k (timeouts s) @ drop (Suc k) (timeouts s)\<rparr>
      else s)"

text \<open>\<^verbatim>\<open>return () => clearInterval(interval)\<close>: all that either cleanup does.\<close>

definition cleanup :: "layer \<Rightarrow> layer" where
  "cleanup s = s\<lparr>interval := False\<rparr>"

text \<open>\<^verbatim>\<open>const interval = setInterval(...)\<close>: what the body of either effect does.\<close>

definition effect_body :: "layer \<Rightarrow> layer" where
  "effect_body s = s\<lparr>interval := True\<rparr>"

fun fg_event :: "square list \<Rightarrow> nat \<Rightarrow> layer \<Rightarrow> event \<Rightarrow> layer" where
  "fg_event squares maxActiveSquares s (Tick rs) =
     (if interval s
      then commit (fst (fg_round squares maxActiveSquares (activeIds s) rs)) s
      else s)"
| "fg_event squares maxActiveSquares s (Timeout k rs) = fire_timeout k rs s"
| "fg_event squares maxActiveSquares s Cleanup = cleanup s"
| "fg_event squares maxActiveSquares s Setup = effect_body s"

fun bg_event :: "square list \<Rightarrow> nat \<Rightarrow> layer \<Rightarrow> event \<Rightarrow> layer" where
  "bg_event backgroundSquares maxBackgroundActive s (Tick rs) =
     (if interval s
      then (case bg_round backgroundSquares maxBackgroundActive (activeIds s) rs of
              None \<Rightarrow> s
            | Some res \<Rightarrow> commit (fst res) s)
      else s)"
| "bg_event backgroundSquares maxBackgroundActive s (Timeout k rs) = fire_timeout k rs s"
| "bg_event backgroundSquares maxBackgroundActive s Cleanup = cleanup s"
| "bg_event backgroundSquares maxBackgroundActive s Setup = effect_body s"

text \<open>A history of a layer from the moment its effect first ran.\<close>

definition fg_run :: "square list \<Rightarrow> nat \<Rightarrow> event list \<Rightarrow> layer" where
  "fg_run squares maxActiveSquares evs = foldl (fg_event squares maxActiveSquares) mount evs"

definition bg_run :: "square list \<Rightarrow> nat \<Rightarrow> event list \<Rightarrow> layer" where
  "bg_run backgroundSquares maxBackgroundActive evs =
     foldl (bg_event backgroundSquares maxBackgroundActive) mount evs"

section \<open>Layout generation\<close>

text \<open>A non-negative integer inside a template literal: its decimal digits.\<close>

definition digit_char :: "nat \<Rightarrow> char" where
  "digit_char d = ''0123456789'' ! d"

fun string_of_nat :: "nat \<Rightarrow> string" where
  "string_of_nat n =
     (if n < 10 then [digit_char n]
      else string_of_nat (n div 10) @ [digit_char (n mod 10)])"

declare string_of_nat.simps [simp del]

definition fg_id :: "nat \<Rightarrow> nat \<Rightarrow> string" where
  "fg_id r c = ''fg-'' @ string_of_nat r @ ''-'' @ string_of_nat c"

definition bg_id :: "nat \<Rightarrow> nat \<Rightarrow> string" where
  "bg_id r c = ''bg-'' @ string_of_nat r @ ''-'' @ string_of_nat c"

text \<open>
  \<^verbatim>\<open>while (curvedIndices.size < curvedCount) curvedIndices.add(...)\<close>. Nothing bounds the
  number of iterations: draws that keep hitting indices already in the set keep the loop
  running, so the loop is a partial function and \<open>None\<close> stands for not returning.
\<close>

partial_function (option) curved_loop ::
  "nat \<Rightarrow> int \<Rightarrow> int list \<Rightarrow> rng \<Rightarrow> (int list \<times> rng) option" where
  "curved_loop totalSquares curvedCount curvedIndices rs =
     (if int (length curvedIndices) < curvedCount
      then curved_loop totalSquares curvedCount
             (set_add (random_index (shd rs) totalSquares) curvedIndices) (stl rs)
      else Some (curvedIndices, rs))"

text \<open>The object literal pushed for a foreground cell, given the draw for its colour.\<close>

definition fg_square :: "int list \<Rightarrow> string list \<Rightarrow> nat \<Rightarrow> nat \<Rightarrow> nat \<Rightarrow> real \<Rightarrow> square" where
  "fg_square curvedIndices colors r c index draw =
     \<lparr>id_sq = fg_id r c, row = r, col = c,
      isCurved = Some (int index \<in> set curvedIndices),
      color = getRandomFrom colors draw\<rparr>"

text \<open>The body of the inner foreground loop: one \<^verbatim>\<open>push\<close> and \<^verbatim>\<open>index++\<close>.\<close>

definition fg_push ::
  "int list \<Rightarrow> string list \<Rightarrow> nat \<Rightarrow> nat \<Rightarrow> square list \<times> nat \<times> rng
     \<Rightarrow> square list \<times> nat \<times> rng" where
  "fg_push curvedIndices colors r c st =
     (case st of (initialSquares, index, rs) \<Rightarrow>
        (initialSquares @ [fg_square curvedIndices colors r c index (shd rs)],
         Suc index, stl rs))"

definition foreground_cells ::
  "nat \<Rightarrow> nat \<Rightarrow> int list \<Rightarrow> string list \<Rightarrow> rng \<Rightarrow> square list \<times> nat \<times> rng" where
  "foreground_cells rows cols curvedIndices colors rs =
     fold (\<lambda>r. fold (fg_push curvedIndices colors r) [0..<cols]) [0..<rows] ([], 0, rs)"

text \<open>The object literal pushed for a background cell: no \<^verbatim>\<open>isCurved\<close> property.\<close>

definition bg_square :: "string list \<Rightarrow> nat \<Rightarrow> nat \<Rightarrow> real \<Rightarrow> square" where
  "bg_square colors r c draw =
     \<lparr>id_sq = bg_id r c, row = r, col = c, isCurved = None,
      color = getRandomFrom colors draw\<rparr>"

definition bg_push ::
  "string list \<Rightarrow> nat \<Rightarrow> nat \<Rightarrow> square list \<times> rng \<Rightarrow> square list \<times> rng" where
  "bg_push colors r c st =
     (case st of (initialBackgroundSquares, rs) \<Rightarrow>
        (initialBackgroundSquares @ [bg_square colors r c (shd rs)], stl rs))"

definition background_cells ::
  "nat \<Rightarrow> nat \<Rightarrow> string list \<Rightarrow> rng \<Rightarrow> square list \<times> rng" where
  "background_cells backgroundRows backgroundCols colors rs =
     fold (\<lambda>r. fold (bg_push colors r) [0..<backgroundCols]) [0..<backgroundRows] ([], rs)"

text \<open>
  \<^verbatim>\<open>Math.floor((totalSquares * curvedPercentage) / 100)\<close>: the product is rounded, then
  the quotient. \<^verbatim>\<open>totalSquares\<close> itself is exact for fewer than \<open>2 ^ 53\<close> cells. The
  percentage the code receives is a binary64 value: a literal such as \<^verbatim>\<open>18.4\<close> stands
  for the nearest one, \<open>2589569785738035 / 140737488355328\<close>.
\<close>

definition curved_count :: "nat \<Rightarrow> nat \<Rightarrow> real \<Rightarrow> int" where
  "curved_count rows cols curvedPercentage =
     \<lfloor>fl (fl (real (rows * cols) * curvedPercentage) / 100)\<rfloor>"

text \<open>
  The layout effect: the arguments of \<^verbatim>\<open>setSquares\<close> and \<^verbatim>\<open>setBackgroundSquares\<close>, when
  the sampling loop returns. Neither active-id set is touched.
\<close>

definition layout_effect ::
  "nat \<Rightarrow> nat \<Rightarrow> real \<Rightarrow> nat \<Rightarrow> nat \<Rightarrow> string list \<Rightarrow> rng
     \<Rightarrow> (square list \<times> square list) option" where
  "layout_effect rows cols curvedPercentage backgroundRows backgroundCols colors rs =
     (let totalSquares = rows * cols;
          curvedCount = curved_count rows cols curvedPercentage
      in case curved_loop totalSquares curvedCount [] rs of
           None \<Rightarrow> None
         | Some sampled \<Rightarrow>
             (let fg = foreground_cells rows cols (fst sampled) colors (snd sampled);
                  bg = background_cells backgroundRows backgroundCols colors (snd (snd fg))
              in Some (fst fg, fst bg)))"

section \<open>Sample grids\<close>

text \<open>
  Three foreground layouts of one row and two columns, as the layout effect builds them:
  one with no curved cell, one with both cells curved, one with the second cell curved.
\<close>

definition regular_1x2 :: "square list" where
  "regular_1x2 =
     [\<lparr>id_sq = ''fg-0-0'', row = 0, col = 0, isCurved = Some False,
       color = Some ''from-blue-500/80 to-blue-600/80''\<rparr>,
      \<lparr>id_sq = ''fg-0-1'', row = 0, col = 1, isCurved = Some False,
       color = Some ''from-blue-500/80 to-blue-600/80''\<rparr>]"

definition curved_1x2 :: "square list" where
  "curved_1x2 =
     [\<lparr>id_sq = ''fg-0-0'', row = 0, col = 0, isCurved = Some True,
       color = Some ''from-blue-500/80 to-blue-600/80''\<rparr>,
      \<lparr>id_sq = ''fg-0-1'', row = 0, col = 1, isCurved = Some True,
       color = Some ''from-blue-500/80 to-blue-600/80''\<rparr>]"

definition mixed_1x2 :: "square list" where
  "mixed_1x2 =
     [\<lparr>id_sq = ''fg-0-0'', row = 0, col = 0, isCurved = Some False,
       color = Some ''from-blue-500/80 to-blue-600/80''\<rparr>,
      \<lparr>id_sq = ''fg-0-1'', row = 0, col = 1, isCurved = Some True,
       color = Some ''from-blue-500/80 to-blue-600/80''\<rparr>]"

text \<open>A background layout of one row and two columns.\<close>

definition background_1x2 :: "square list" where
  "background_1x2 =
     [\<lparr>id_sq = ''bg-0-0'', row = 0, col = 0, isCurved = None,
       color = Some ''from-blue-500/80 to-blue-600/80''\<rparr>,
      \<lparr>id_sq = ''bg-0-1'', row = 0, col = 1, isCurved = None,
       color = Some ''from-blue-500/80 to-blue-600/80''\<rparr>]"

section \<open>Properties of the primitives and of the loops\<close>

lemma set_set_add: "set (set_add x s) = insert x (set s)"
  by (auto simp: set_add_def)

lemma length_set_add_le: "length (set_add x s) \<le> Suc (length s)"
  by (simp add: set_add_def)

lemma distinct_set_add: "distinct s \<Longrightarrow> distinct (set_add x s)"
  by (simp add: set_add_def)

lemma js_nth_mem: "js_nth arr i = Some x \<Longrightarrow> x \<in> set arr"
  by (auto simp: js_nth_def split: if_splits)

lemma activate_regular_mono: "set newActiveIds \<subseteq> set (fst (activate_regular k inact newActiveIds rs))"
proof (induction k arbitrary: inact newActiveIds rs)
  case 0
  show ?case by simp
next
  case (Suc k)
  show ?case
  proof (cases "length inact > 0")
    case True
    let ?sp = "js_splice1 (random_index (shd rs) (length inact)) inact"
    let ?new = "case fst ?sp of Some sq \<Rightarrow> set_add (id_sq sq) newActiveIds | None \<Rightarrow> newActiveIds"
    have "set newActiveIds \<subseteq> set ?new"
      by (auto split: option.splits simp: set_set_add)
    also have "\<dots> \<subseteq> set (fst (activate_regular k (snd ?sp) ?new (stl rs)))"
      by (rule Suc)
    finally show ?thesis using True by (simp add: Let_def)
  next
    case False
    then show ?thesis using Suc by simp
  qed
qed

lemma activate_regular_length:
  "length (fst (activate_regular k inact newActiveIds rs)) \<le> length newActiveIds + k"
proof (induction k inact newActiveIds rs rule: activate_regular.induct)
  case (1 inact newActiveIds rs)
  show ?case by simp
next
  case (2 i inact newActiveIds rs)
  show ?case
  proof (cases "length inact > 0")
    case True
    let ?sp = "js_splice1 (random_index (shd rs) (length inact)) inact"
    let ?new = "case fst ?sp of Some sq \<Rightarrow> set_add (id_sq sq) newActiveIds | None \<Rightarrow> newActiveIds"
    have "length (fst (activate_regular i (snd ?sp) ?new (stl rs))) \<le> length ?new + i"
      using 2(1)[OF True refl refl] by simp
    moreover have "length ?new \<le> Suc (length newActiveIds)"
      using length_set_add_le by (auto split: option.splits intro: le_SucI)
    ultimately show ?thesis using True by (simp add: Let_def)
  next
    case False
    with 2(2) show ?thesis by (simp add: le_SucI)
  qed
qed

lemma activate_regular_distinct:
  "distinct newActiveIds \<Longrightarrow> distinct (fst (activate_regular k inact newActiveIds rs))"
  by (induction k arbitrary: inact newActiveIds rs)
     (auto simp: Let_def distinct_set_add split: option.splits)

lemma activate_background_mono: "set newActiveIds \<subseteq> set (fst (activate_background k inact newActiveIds rs))"
proof (induction k arbitrary: inact newActiveIds rs)
  case 0
  show ?case by simp
next
  case (Suc k)
  show ?case
  proof (cases "length inact > 0")
    case True
    let ?sp = "js_splice1 (random_index (shd rs) (length inact)) inact"
    let ?new = "case fst ?sp of Some sq \<Rightarrow> set_add (id_sq sq) newActiveIds | None \<Rightarrow> newActiveIds"
    have "set newActiveIds \<subseteq> set ?new"
      by (auto split: option.splits simp: set_set_add)
    also have "\<dots> \<subseteq> set (fst (activate_background k (snd ?sp) ?new (stl rs)))"
      by (rule Suc)
    finally show ?thesis using True by (simp add: Let_def)
  next
    case False
    then show ?thesis by simp
  qed
qed

lemma activate_background_length:
  "length (fst (activate_background k inact newActiveIds rs)) \<le> length newActiveIds + k"
proof (induction k inact newActiveIds rs rule: activate_background.induct)
  case (1 inact newActiveIds rs)
  show ?case by simp
next
  case (2 i inact newActiveIds rs)
  show ?case
  proof (cases "length inact = 0")
    case False
    let ?sp = "js_splice1 (random_index (shd rs) (length inact)) inact"
    let ?new = "case fst ?sp of Some sq \<Rightarrow> set_add (id_sq sq) newActiveIds | None \<Rightarrow> newActiveIds"
    have "length (fst (activate_background i (snd ?sp) ?new (stl rs))) \<le> length ?new + i"
      using 2[OF False refl refl] by simp
    moreover have "length ?new \<le> Suc (length newActiveIds)"
      using length_set_add_le by (auto split: option.splits intro: le_SucI)
    ultimately show ?thesis using False by (simp add: Let_def)
  next
    case True
    then show ?thesis by simp
  qed
qed

lemma activate_background_distinct:
  "distinct newActiveIds \<Longrightarrow> distinct (fst (activate_background k inact newActiveIds rs))"
  by (induction k arbitrary: inact newActiveIds rs)
     (auto simp: Let_def distinct_set_add split: option.splits)

lemma deactivate_sub: "set (fst (deactivate ids prev updated rs)) \<subseteq> set updated"
  by (induction ids prev updated rs rule: deactivate.induct) (auto simp: set_delete_def)

lemma deactivate_keep: "set updated - set ids \<subseteq> set (fst (deactivate ids prev updated rs))"
  by (induction ids prev updated rs rule: deactivate.induct) (auto simp: set_delete_def)

lemma deactivate_length: "length (fst (deactivate ids prev updated rs)) \<le> length updated"
proof (induction ids prev updated rs rule: deactivate.induct)
  case (1 prev updated rs)
  show ?case by simp
next
  case (2 i ids prev updated rs)
  have "length (set_delete i updated) \<le> length updated"
    by (simp add: set_delete_def)
  with 2 show ?case by (auto dest: le_trans)
qed

lemma deactivate_distinct: "distinct updated \<Longrightarrow> distinct (fst (deactivate ids prev updated rs))"
  by (induction ids prev updated rs rule: deactivate.induct) (auto simp: set_delete_def distinct_removeAll)

lemmas round_defs = fg_round_def fg_regular_path_def fg_curved_path_def bg_round_def
  truthy_def random_index_def js_splice1_def js_nth_def set_add_def set_delete_def
  deactivation_step_def

lemmas layer_defs = fg_run_def bg_run_def mount_def commit_def fire_timeout_def cleanup_def
  effect_body_def

lemma fg_regular_path_length:
  "length (fst (fg_regular_path squares m a rs)) \<le> max (length a) m"
proof -
  let ?n = "min (random_index (shd rs) 3 + 1) (int m - int (length a))"
  let ?inact = "filter (\<lambda>sq. \<not> truthy (isCurved sq)) (filter (\<lambda>sq. id_sq sq \<notin> set a) squares)"
  show ?thesis
  proof (cases "length ?inact > 0")
    case True
    have "length (fst (activate_regular (nat ?n) ?inact a (stl rs))) \<le> length a + nat ?n"
      by (rule activate_regular_length)
    also have "\<dots> \<le> max (length a) m" by linarith
    finally show ?thesis using True by (simp add: fg_regular_path_def Let_def)
  next
    case False
    then show ?thesis by (simp add: fg_regular_path_def Let_def)
  qed
qed

lemma fg_regular_path_mono: "set a \<subseteq> set (fst (fg_regular_path squares m a rs))"
  using activate_regular_mono by (simp add: fg_regular_path_def Let_def)

lemma fg_regular_path_distinct: "distinct a \<Longrightarrow> distinct (fst (fg_regular_path squares m a rs))"
  using activate_regular_distinct by (simp add: fg_regular_path_def Let_def)

lemma fg_curved_path_cases:
  "fst (fg_curved_path squares a new rs) = new \<or>
   (\<exists>c \<in> set squares. truthy (isCurved c) \<and> id_sq c \<notin> set a \<and>
       fst (fg_curved_path squares a new rs) = set_add (id_sq c) new)"
proof -
  let ?inact = "filter (\<lambda>sq. truthy (isCurved sq)) (filter (\<lambda>sq. id_sq sq \<notin> set a) squares)"
  let ?pick = "js_nth ?inact (random_index (shd (stl rs)) (length ?inact))"
  show ?thesis
  proof (cases "length ?inact > 0 \<and> shd rs < 0.3")
    case False
    then consider "\<not> length ?inact > 0" | "length ?inact > 0" "\<not> shd rs < 0.3"
      by blast
    then have "fst (fg_curved_path squares a new rs) = new"
    proof cases
      case 1
      then show ?thesis by (simp add: fg_curved_path_def Let_def)
    next
      case 2
      then show ?thesis by (simp add: fg_curved_path_def Let_def)
    qed
    then show ?thesis ..
  next
    case True
    show ?thesis
    proof (cases ?pick)
      case None
      with True have "fst (fg_curved_path squares a new rs) = new"
        by (simp add: fg_curved_path_def Let_def)
      then show ?thesis ..
    next
      case (Some c)
      from js_nth_mem [OF Some]
      have c: "c \<in> set squares" "truthy (isCurved c)" "id_sq c \<notin> set a"
        by simp_all
      from True Some have "fst (fg_curved_path squares a new rs) = set_add (id_sq c) new"
        by (simp add: fg_curved_path_def Let_def)
      with c show ?thesis by blast
    qed
  qed
qed

lemma fg_curved_path_length: "length (fst (fg_curved_path squares a new rs)) \<le> Suc (length new)"
proof -
  have "length (set_add x new) \<le> Suc (length new)" for x :: string
    by (rule length_set_add_le)
  then show ?thesis
    using fg_curved_path_cases [of squares a new rs] by auto
qed

lemma fg_curved_path_mono: "set new \<subseteq> set (fst (fg_curved_path squares a new rs))"
  using fg_curved_path_cases [of squares a new rs] by (auto simp: set_set_add)

lemma fg_curved_path_distinct: "distinct new \<Longrightarrow> distinct (fst (fg_curved_path squares a new rs))"
  using fg_curved_path_cases [of squares a new rs] by (auto simp: distinct_set_add)

lemma fg_round_mono: "set a \<subseteq> set (fst (fg_round squares m a rs))"
proof -
  have "set a \<subseteq> set (fst (fg_regular_path squares m a rs))"
    by (rule fg_regular_path_mono)
  also have "\<dots> \<subseteq> set (fst (fg_round squares m a rs))"
    unfolding fg_round_def Let_def by (rule fg_curved_path_mono)
  finally show ?thesis .
qed

lemma fg_round_distinct: "distinct a \<Longrightarrow> distinct (fst (fg_round squares m a rs))"
  by (simp add: fg_round_def Let_def fg_curved_path_distinct fg_regular_path_distinct)

lemma bg_round_Some:
  assumes "bg_round squares m b rs = Some res"
  shows "res = activate_background
                 (nat (min (random_index (shd rs) 2 + 1) (int m - int (length b))))
                 (filter (\<lambda>sq. id_sq sq \<notin> set b) squares) b (stl rs)"
  using assms by (auto simp: bg_round_def Let_def split: if_splits)

lemma bg_round_mono:
  assumes "bg_round squares m b rs = Some res"
  shows "set b \<subseteq> set (fst res)"
  unfolding bg_round_Some [OF assms] by (rule activate_background_mono)

lemma bg_round_distinct: "bg_round squares m b rs = Some res \<Longrightarrow> distinct b \<Longrightarrow> distinct (fst res)"
  using activate_background_distinct by (auto dest!: bg_round_Some)

lemma bg_round_length:
  assumes "bg_round squares m b rs = Some res"
  shows "length (fst res) \<le> max (length b) m"
proof -
  let ?n = "min (random_index (shd rs) 2 + 1) (int m - int (length b))"
  let ?inact = "filter (\<lambda>sq. id_sq sq \<notin> set b) squares"
  from assms have res: "res = activate_background (nat ?n) ?inact b (stl rs)"
    by (rule bg_round_Some)
  have "length (fst (activate_background (nat ?n) ?inact b (stl rs))) \<le> length b + nat ?n"
    by (rule activate_background_length)
  also have "\<dots> \<le> max (length b) m" by linarith
  finally show ?thesis by (simp add: res)
qed

lemma fg_regular_path_picks:
  "length (fst (fg_regular_path squares m a rs))
     \<le> length a + nat (min (random_index (shd rs) 3 + 1) (int m - int (length a)))"
proof -
  let ?n = "min (random_index (shd rs) 3 + 1) (int m - int (length a))"
  let ?inact = "filter (\<lambda>sq. \<not> truthy (isCurved sq)) (filter (\<lambda>sq. id_sq sq \<notin> set a) squares)"
  show ?thesis
  proof (cases "length ?inact > 0")
    case True
    have "length (fst (activate_regular (nat ?n) ?inact a (stl rs))) \<le> length a + nat ?n"
      by (rule activate_regular_length)
    then show ?thesis using True by (simp add: fg_regular_path_def Let_def)
  next
    case False
    then show ?thesis by (simp add: fg_regular_path_def Let_def)
  qed
qed

lemma bg_round_picks:
  assumes "bg_round squares m b rs = Some res"
  shows "length (fst res)
           \<le> length b + nat (min (random_index (shd rs) 2 + 1) (int m - int (length b)))"
  unfolding bg_round_Some [OF assms] by (rule activate_background_length)

lemma unit_draws_shd: "unit_draws rs \<Longrightarrow> 0 \<le> shd rs \<and> shd rs < 1"
  by (simp add: unit_draws_def shd_sset)

lemma unit_draws_stl: "unit_draws rs \<Longrightarrow> unit_draws (stl rs)"
  by (auto simp: unit_draws_def dest: stl_sset)

lemma unit_draws_SCons: "unit_draws (r ## rs) \<longleftrightarrow> 0 \<le> r \<and> r < 1 \<and> unit_draws rs"
  by (auto simp: unit_draws_def)

lemma unit_draws_sconst: "unit_draws (sconst r) \<longleftrightarrow> 0 \<le> r \<and> r < 1"
  by (simp add: unit_draws_def)

lemma deactivation_step_length: "length (deactivation_step n prev rs) \<le> length prev"
  unfolding deactivation_step_def by (rule deactivate_length)

lemma deactivation_step_distinct: "distinct prev \<Longrightarrow> distinct (deactivation_step n prev rs)"
  unfolding deactivation_step_def by (rule deactivate_distinct)

lemma run_invariant:
  assumes "\<And>s ev. P s \<Longrightarrow> P (f s ev)" and "P s"
  shows "P (foldl f s evs)"
  using assms(2) by (induction evs arbitrary: s) (simp_all add: assms(1))

lemma bg_event_invariant:
  assumes "distinct (activeIds s) \<and> length (activeIds s) \<le> m"
  shows "distinct (activeIds (bg_event squares m s ev)) \<and> length (activeIds (bg_event squares m s ev)) \<le> m"
proof (cases ev)
  case (Tick rs)
  show ?thesis
  proof (cases "bg_round squares m (activeIds s) rs")
    case None
    with Tick assms show ?thesis by simp
  next
    case (Some res)
    from bg_round_length [OF Some] assms have "length (fst res) \<le> m" by simp
    moreover from bg_round_distinct [OF Some] assms have "distinct (fst res)" by simp
    ultimately show ?thesis using Tick Some assms by (simp add: commit_def)
  qed
next
  case (Timeout k rs)
  have "length (deactivation_step (timeouts s ! k) (activeIds s) rs) \<le> m"
    using deactivation_step_length [of "timeouts s ! k" "activeIds s" rs] assms by simp
  then show ?thesis
    using Timeout assms by (simp add: fire_timeout_def deactivation_step_distinct)
next
  case Cleanup
  with assms show ?thesis by (simp add: cleanup_def)
next
  case Setup
  with assms show ?thesis by (simp add: effect_body_def)
qed


lemma fire_timeout_removes:
  "interval (fire_timeout k rs s) = interval s \<and>
   set (activeIds (fire_timeout k rs s)) \<subseteq> set (activeIds s)"
proof (cases "k < length (timeouts s)")
  case True
  have "set (deactivation_step (timeouts s ! k) (activeIds s) rs) \<subseteq> set (activeIds s)"
    unfolding deactivation_step_def by (rule deactivate_sub)
  with True show ?thesis by (simp add: fire_timeout_def)
next
  case False
  then show ?thesis by (simp add: fire_timeout_def)
qed

lemma fg_event_disarmed:
  assumes "ev \<noteq> Setup" and "\<not> interval s"
  shows "\<not> interval (fg_event squares m s ev) \<and>
         set (activeIds (fg_event squares m s ev)) \<subseteq> set (activeIds s)"
proof (cases ev)
  case (Tick rs)
  with assms show ?thesis by simp
next
  case (Timeout k rs)
  with assms fire_timeout_removes [of k rs s] show ?thesis by simp
next
  case Cleanup
  then show ?thesis by (simp add: cleanup_def)
next
  case Setup
  with assms show ?thesis by simp
qed

lemma bg_event_disarmed:
  assumes "ev \<noteq> Setup" and "\<not> interval s"
  shows "\<not> interval (bg_event squares m s ev) \<and>
         set (activeIds (bg_event squares m s ev)) \<subseteq> set (activeIds s)"
proof (cases ev)
  case (Tick rs)
  with assms show ?thesis by simp
next
  case (Timeout k rs)
  with assms fire_timeout_removes [of k rs s] show ?thesis by simp
next
  case Cleanup
  then show ?thesis by (simp add: cleanup_def)
next
  case Setup
  with assms show ?thesis by simp
qed

lemma disarmed_run:
  assumes step: "\<And>s ev. ev \<noteq> Setup \<Longrightarrow> \<not> interval s \<Longrightarrow>
      \<not> interval (f s ev) \<and> set (activeIds (f s ev)) \<subseteq> set (activeIds s)"
  shows "Setup \<notin> set evs \<Longrightarrow> \<not> interval s \<Longrightarrow>
      \<not> interval (foldl f s evs) \<and> set (activeIds (foldl f s evs)) \<subseteq> set (activeIds s)"
proof (induction evs arbitrary: s)
  case Nil
  then show ?case by simp
next
  case (Cons ev evs)
  from Cons.prems have ev: "ev \<noteq> Setup" and evs: "Setup \<notin> set evs" by auto
  from step [OF ev Cons.prems(2)]
  have 1: "\<not> interval (f s ev)" and 2: "set (activeIds (f s ev)) \<subseteq> set (activeIds s)"
    by simp_all
  from Cons.IH [OF evs 1]
  have "\<not> interval (foldl f (f s ev) evs)"
    and "set (activeIds (foldl f (f s ev) evs)) \<subseteq> set (activeIds (f s ev))"
    by simp_all
  with 2 show ?case by auto
qed

lemma random_index_less: "r < 1 \<Longrightarrow> n > 0 \<Longrightarrow> random_index r n < int n"
proof -
  assume "r < 1" "n > 0"
  then have "r * real n < real n" by simp
  then show ?thesis by (simp add: random_index_def floor_less_iff)
qed

lemma fg_regular_path_adds:
  assumes "shd rs < 1"
  shows "length (fst (fg_regular_path squares m a rs)) \<le> length a + 3"
proof -
  let ?n = "min (random_index (shd rs) 3 + 1) (int m - int (length a))"
  let ?inact = "filter (\<lambda>sq. \<not> truthy (isCurved sq)) (filter (\<lambda>sq. id_sq sq \<notin> set a) squares)"
  have "random_index (shd rs) 3 < 3"
    using random_index_less [OF assms, of 3] by simp
  then have n: "nat ?n \<le> 3" by linarith
  show ?thesis
  proof (cases "length ?inact > 0")
    case True
    have "length (fst (activate_regular (nat ?n) ?inact a (stl rs))) \<le> length a + nat ?n"
      by (rule activate_regular_length)
    also have "\<dots> \<le> length a + 3" using n by simp
    finally show ?thesis using True by (simp add: fg_regular_path_def Let_def)
  next
    case False
    then show ?thesis by (simp add: fg_regular_path_def Let_def)
  qed
qed

lemma fg_round_adds:
  assumes "shd rs < 1"
  shows "length (fst (fg_round squares m a rs)) \<le> length a + 4"
proof -
  let ?reg = "fg_regular_path squares m a rs"
  have "length (fst (fg_round squares m a rs)) \<le> Suc (length (fst ?reg))"
    unfolding fg_round_def Let_def by (rule fg_curved_path_length)
  also have "\<dots> \<le> Suc (length a + 3)"
    using fg_regular_path_adds [OF assms, of squares m a] by simp
  finally show ?thesis by simp
qed

lemma bg_round_adds:
  assumes "shd rs < 1" and "bg_round squares m b rs = Some res"
  shows "length (fst res) \<le> length b + 2"
proof -
  let ?n = "min (random_index (shd rs) 2 + 1) (int m - int (length b))"
  let ?inact = "filter (\<lambda>sq. id_sq sq \<notin> set b) squares"
  have "random_index (shd rs) 2 < 2"
    using random_index_less [OF assms(1), of 2] by simp
  then have n: "nat ?n \<le> 2" by linarith
  have res: "res = activate_background (nat ?n) ?inact b (stl rs)"
    using assms(2) by (rule bg_round_Some)
  have "length (fst (activate_background (nat ?n) ?inact b (stl rs))) \<le> length b + nat ?n"
    by (rule activate_background_length)
  also have "\<dots> \<le> length b + 2" using n by simp
  finally show ?thesis by (simp add: res)
qed

lemma new_ids_card:
  assumes "distinct a" "distinct new" "set a \<subseteq> set new"
  shows "card (set new - set a) = length new - length a"
proof -
  have "card (set new - set a) = card (set new) - card (set a)"
    using assms(3) by (simp add: card_Diff_subset)
  then show ?thesis using assms(1,2) by (simp add: distinct_card)
qed

lemma fg_regular_path_zero: "fst (fg_regular_path squares 0 a rs) = a"
proof -
  have "nat (min (random_index (shd rs) 3 + 1) (int 0 - int (length a))) = 0"
    by simp
  then show ?thesis
    by (simp add: fg_regular_path_def Let_def)
qed

lemma fg_round_zero:
  "fst (fg_round squares 0 a rs)
     = fst (fg_curved_path squares a a (snd (fg_regular_path squares 0 a rs)))"
  by (simp add: fg_round_def Let_def fg_regular_path_zero)

lemma js_nth_in_range:
  "0 \<le> i \<Longrightarrow> i < int (length arr) \<Longrightarrow> \<exists>x \<in> set arr. js_nth arr i = Some x"
  by (simp add: js_nth_def nat_less_iff)

lemma fg_curved_path_fires:
  assumes ex: "\<exists>c \<in> set squares. truthy (isCurved c) \<and> id_sq c \<notin> set a"
    and draw: "shd rs < 0.3"
    and pick: "0 \<le> shd (stl rs)" "shd (stl rs) < 1"
  shows "\<exists>c \<in> set squares. truthy (isCurved c) \<and> id_sq c \<notin> set a \<and>
           fst (fg_curved_path squares a new rs) = set_add (id_sq c) new"
proof -
  let ?inact = "filter (\<lambda>sq. truthy (isCurved sq)) (filter (\<lambda>sq. id_sq sq \<notin> set a) squares)"
  let ?i = "random_index (shd (stl rs)) (length ?inact)"
  from ex obtain c0 where "c0 \<in> set squares" "truthy (isCurved c0)" "id_sq c0 \<notin> set a"
    by blast
  then have "c0 \<in> set ?inact" by simp
  then have len: "length ?inact > 0" by (rule length_pos_if_in_set)
  have "0 \<le> ?i" using pick by (simp add: random_index_def)
  moreover have "?i < int (length ?inact)"
    using pick(2) len by (rule random_index_less)
  ultimately obtain c where c: "c \<in> set ?inact" "js_nth ?inact ?i = Some c"
    using js_nth_in_range by blast
  from len draw c(2) have "fst (fg_curved_path squares a new rs) = set_add (id_sq c) new"
    by (simp add: fg_curved_path_def Let_def)
  moreover from c(1) have "c \<in> set squares" "truthy (isCurved c)" "id_sq c \<notin> set a"
    by simp_all
  ultimately show ?thesis by blast
qed

lemma fg_curved_path_skips:
  "\<not> shd rs < 0.3 \<Longrightarrow> fst (fg_curved_path squares a new rs) = new"
  by (simp add: fg_curved_path_def Let_def)

section \<open>Properties of the arithmetic\<close>

lemma bit_length_0: "bit_length 0 = 0"
  by (simp add: bit_length.simps)

lemma bit_length_pos: "0 < n \<Longrightarrow> bit_length n = Suc (bit_length (n div 2))"
  by (subst bit_length.simps) simp

lemma bit_length_le: "n < 2 ^ m \<Longrightarrow> bit_length n \<le> m"
proof (induction m arbitrary: n)
  case 0
  then show ?case by (simp add: bit_length_0)
next
  case (Suc m)
  show ?case
  proof (cases "n = 0")
    case True
    then show ?thesis by (simp add: bit_length_0)
  next
    case False
    from Suc.prems have "n div 2 < 2 ^ m" by simp
    then have "bit_length (n div 2) \<le> m" by (rule Suc.IH)
    with False show ?thesis by (simp add: bit_length_pos)
  qed
qed

lemma bit_length_bounds: "0 < n \<Longrightarrow> 2 ^ (bit_length n - 1) \<le> n \<and> n < 2 ^ bit_length n"
proof (induction n rule: bit_length.induct)
  case (1 n)
  show ?case
  proof (cases "n div 2 = 0")
    case True
    with "1.prems" have "n = 1" by (simp add: div_eq_0_iff) 
    then show ?thesis by (simp add: bit_length_pos bit_length_0)
  next
    case False
    then have pos: "0 < n div 2" by simp
    from "1.prems" have n: "n \<noteq> 0" by simp
    from "1.IH" [OF n pos]
    have ih: "2 ^ (bit_length (n div 2) - 1) \<le> n div 2" "n div 2 < 2 ^ bit_length (n div 2)"
      by simp_all
    have b: "bit_length n = Suc (bit_length (n div 2))"
      using "1.prems" by (rule bit_length_pos)
    have b2: "bit_length (n div 2) = Suc (bit_length (n div 2) - 1)"
      using pos by (simp add: bit_length_pos)
    have "2 ^ (bit_length n - 1) = 2 * 2 ^ (bit_length (n div 2) - 1)"
      unfolding b using b2 by (metis diff_Suc_1 power_Suc)
    also have "\<dots> \<le> 2 * (n div 2)" using ih(1) by simp
    also have "\<dots> \<le> n" by simp
    finally have lo: "2 ^ (bit_length n - 1) \<le> n" .
    have "n < 2 * (n div 2) + 2" by linarith
    also have "\<dots> \<le> 2 * 2 ^ bit_length (n div 2)" using ih(2) by simp
    finally have "n < 2 ^ bit_length n" by (simp add: b)
    with lo show ?thesis ..
  qed
qed

lemma pow2_pos: "0 < pow2 k"
  by (simp add: pow2_def)

lemma pow2_nonpos: "k \<le> 0 \<Longrightarrow> pow2 k = 1 / 2 ^ nat (- k)"
  by (cases "k = 0") (simp_all add: pow2_def)

lemma expo_le:
  assumes "0 < x" "x < 2 ^ Suc m"
  shows "expo x \<le> int m"
proof (cases "1 \<le> x")
  case True
  have "\<lfloor>x\<rfloor> < 2 ^ Suc m" using assms(2) by (simp add: floor_less_iff)
  then have "nat \<lfloor>x\<rfloor> < 2 ^ Suc m" using True by (simp add: nat_less_iff)
  then have "bit_length (nat \<lfloor>x\<rfloor>) \<le> Suc m" by (rule bit_length_le)
  with True show ?thesis by (simp add: expo_def)
next
  case False
  then show ?thesis by (simp add: expo_def)
qed

lemma round_half_even_le: "q \<le> of_int M \<Longrightarrow> round_half_even q \<le> M"
proof -
  assume q: "q \<le> of_int M"
  then have f: "\<lfloor>q\<rfloor> \<le> M" by (simp add: floor_le_iff) 
  show ?thesis
  proof (cases "\<lfloor>q\<rfloor> = M")
    case True
    with q have "q - of_int \<lfloor>q\<rfloor> \<le> 0" by simp
    then show ?thesis using True by (simp add: round_half_even_def Let_def)
  next
    case False
    with f have "\<lfloor>q\<rfloor> + 1 \<le> M" by simp
    then show ?thesis by (simp add: round_half_even_def Let_def)
  qed
qed

lemma round_half_even_ge: "of_int M \<le> q \<Longrightarrow> M \<le> round_half_even q"
proof -
  assume "of_int M \<le> q"
  then have "M \<le> \<lfloor>q\<rfloor>" by (simp add: le_floor_iff)
  then show ?thesis by (simp add: round_half_even_def Let_def)
qed

lemma round_half_even_less: "q < of_int M - 1 / 2 \<Longrightarrow> round_half_even q < M"
proof -
  assume q: "q < of_int M - 1 / 2"
  then have "q < of_int M" by simp
  then have f: "\<lfloor>q\<rfloor> < M" by (simp add: floor_less_iff)
  show ?thesis
  proof (cases "\<lfloor>q\<rfloor> + 1 = M")
    case True
    then have "of_int M = of_int \<lfloor>q\<rfloor> + (1::real)" by (metis of_int_1 of_int_add)
    with q have "q - of_int \<lfloor>q\<rfloor> < 1 / 2" by simp
    then show ?thesis using f by (simp add: round_half_even_def Let_def)
  next
    case False
    with f have "\<lfloor>q\<rfloor> + 1 < M" by simp
    then show ?thesis by (simp add: round_half_even_def Let_def)
  qed
qed

lemma fl_pos_scaled:
  assumes "0 < x" "x < 2 ^ Suc m" "m \<le> 52"
  shows "\<exists>j. 52 - m \<le> j \<and> fl_pos x = of_int (round_half_even (x * 2 ^ j)) / 2 ^ j"
proof -
  let ?k = "max (expo x) (- 1022) - 52"
  have "expo x \<le> int m" using assms(1,2) by (rule expo_le)
  then have k: "?k \<le> int m - 52" by simp
  then have k0: "?k \<le> 0" using assms(3) by simp
  have "52 - m \<le> nat (- ?k)" using k by linarith
  moreover have "fl_pos x = of_int (round_half_even (x * 2 ^ nat (- ?k))) / 2 ^ nat (- ?k)"
    by (simp add: fl_pos_def Let_def pow2_nonpos [OF k0])
  ultimately show ?thesis by blast
qed

lemma fl_pos_le_int:
  assumes "0 < x" "x \<le> of_int N" "N < 2 ^ 53"
  shows "fl_pos x \<le> of_int N"
proof -
  have "x < 2 ^ Suc 52"
  proof -
    have "of_int N < (2::real) ^ 53" using assms(3) by (metis of_int_less_numeral_power_cancel_iff)
    with assms(2) show ?thesis by simp
  qed
  from fl_pos_scaled [OF assms(1) this] obtain j
    where fl: "fl_pos x = of_int (round_half_even (x * 2 ^ j)) / 2 ^ j" by blast
  have "x * 2 ^ j \<le> of_int (N * 2 ^ j)" using assms(2) by simp
  then have "round_half_even (x * 2 ^ j) \<le> N * 2 ^ j" by (rule round_half_even_le)
  then have "(of_int (round_half_even (x * 2 ^ j)) :: real) \<le> of_int (N * 2 ^ j)"
    by (simp only: of_int_le_iff)
  then show ?thesis by (simp add: fl field_simps)
qed

lemma fl_pos_ge_int:
  assumes "0 < x" "of_int N \<le> x" "x < 2 ^ 53"
  shows "of_int N \<le> fl_pos x"
proof -
  have "x < 2 ^ Suc 52" using assms(3) by simp
  from fl_pos_scaled [OF assms(1) this] obtain j
    where fl: "fl_pos x = of_int (round_half_even (x * 2 ^ j)) / 2 ^ j" by blast
  have "of_int (N * 2 ^ j) \<le> x * 2 ^ j" using assms(2) by simp
  then have "N * 2 ^ j \<le> round_half_even (x * 2 ^ j)" by (rule round_half_even_ge)
  then have "(of_int (N * 2 ^ j) :: real) \<le> of_int (round_half_even (x * 2 ^ j))"
    by (simp only: of_int_le_iff)
  then show ?thesis by (simp add: fl field_simps)
qed

lemma fl_pos_less_int:
  assumes "0 < x" "x \<le> of_int N - 1 / 100" "N \<le> 2 ^ 46"
  shows "fl_pos x < of_int N"
proof -
  have "x < 2 ^ Suc 46"
  proof -
    have "of_int N \<le> (2::real) ^ 46" using assms(3) by (metis of_int_le_numeral_power_cancel_iff)
    with assms(2) show ?thesis by simp
  qed
  from fl_pos_scaled [OF assms(1) this] obtain j
    where j: "52 - 46 \<le> j" and fl: "fl_pos x = of_int (round_half_even (x * 2 ^ j)) / 2 ^ j"
    by auto
  have "(2::real) ^ 6 \<le> 2 ^ j" using j by (intro power_increasing) simp_all
  then have big: "(64::real) \<le> 2 ^ j" by simp
  have "x * 2 ^ j \<le> (of_int N - 1 / 100) * 2 ^ j" using assms(2) by simp
  also have "\<dots> = of_int (N * 2 ^ j) - 2 ^ j / 100" by (simp add: algebra_simps)
  also have "\<dots> < of_int (N * 2 ^ j) - 1 / 2" using big by simp
  finally have "round_half_even (x * 2 ^ j) < N * 2 ^ j" by (rule round_half_even_less)
  then have "(of_int (round_half_even (x * 2 ^ j)) :: real) < of_int (N * 2 ^ j)"
    by (simp only: of_int_less_iff)
  then show ?thesis by (simp add: fl field_simps)
qed

lemma fl_nonneg: "0 \<le> x \<Longrightarrow> 0 \<le> fl x"
proof -
  assume x: "0 \<le> x"
  show ?thesis
  proof (cases "x = 0")
    case True
    then show ?thesis by (simp add: fl_def)
  next
    case False
    with x have pos: "0 < x" by simp
    let ?u = "pow2 (max (expo x) (- 1022) - 52)"
    have "of_int 0 \<le> x / ?u" using pos pow2_pos [of "max (expo x) (- 1022) - 52"] by simp
    then have "0 \<le> round_half_even (x / ?u)" by (rule round_half_even_ge)
    then have "0 \<le> fl_pos x"
      using pow2_pos [of "max (expo x) (- 1022) - 52"] by (simp add: fl_pos_def Let_def)
    with pos show ?thesis by (simp add: fl_def)
  qed
qed

lemma fl_le_int:
  assumes "0 \<le> x" "x \<le> of_int N" "N < 2 ^ 53"
  shows "fl x \<le> of_int N"
proof (cases "x = 0")
  case True
  with assms(2) show ?thesis by (simp add: fl_def)
next
  case False
  with assms(1) have "0 < x" by simp
  then show ?thesis using fl_pos_le_int [OF _ assms(2,3)] by (simp add: fl_def)
qed

lemma fl_ge_int:
  assumes "0 \<le> x" "of_int N \<le> x" "x < 2 ^ 53"
  shows "of_int N \<le> fl x"
proof (cases "x = 0")
  case True
  with assms(2) show ?thesis by (simp add: fl_def)
next
  case False
  with assms(1) have "0 < x" by simp
  then show ?thesis using fl_pos_ge_int [OF _ assms(2,3)] by (simp add: fl_def)
qed

lemma fl_less_int:
  assumes "0 \<le> x" "x \<le> of_int N - 1 / 100" "N \<le> 2 ^ 46"
  shows "fl x < of_int N"
proof (cases "x = 0")
  case True
  with assms(2) show ?thesis by (simp add: fl_def)
next
  case False
  with assms(1) have "0 < x" by simp
  then show ?thesis using fl_pos_less_int [OF _ assms(2,3)] by (simp add: fl_def)
qed

lemma fl_of_nat: "n < 2 ^ 53 \<Longrightarrow> fl (real n) = real n"
proof -
  assume n: "n < 2 ^ 53"
  have r: "real n = of_int (int n)" by simp
  have i: "int n < 2 ^ 53" using n by (metis of_nat_less_numeral_power_cancel_iff)
  have x: "real n < 2 ^ 53" using n by (metis of_nat_less_numeral_power_cancel_iff)
  have "fl (real n) \<le> of_int (int n)" by (rule fl_le_int [OF _ _ i]) simp_all
  moreover have "of_int (int n) \<le> fl (real n)" by (rule fl_ge_int [OF _ _ x]) simp_all
  ultimately show ?thesis by simp
qed

lemma pow2_neg_nat: "pow2 (- int m) = 1 / 2 ^ m"
  by (cases "m = 0") (simp_all add: pow2_def)

lemma expo_bounds:
  assumes "0 < x"
  shows "pow2 (expo x) \<le> x \<and> x < pow2 (expo x + 1)"
proof (cases "1 \<le> x")
  case True
  let ?n = "nat \<lfloor>x\<rfloor>"
  have n: "0 < ?n" using True by simp
  from bit_length_bounds [OF n]
  have b: "2 ^ (bit_length ?n - 1) \<le> ?n" "?n < 2 ^ bit_length ?n" by simp_all
  have bp: "0 < bit_length ?n" using n by (simp add: bit_length_pos)
  have e: "expo x = int (bit_length ?n - 1)" using True bp by (simp add: expo_def)
  have "real (2 ^ (bit_length ?n - 1)) \<le> real ?n" using b(1) by (simp only: of_nat_le_iff)
  also have "real ?n \<le> x" using True by simp
  finally have lo: "pow2 (expo x) \<le> x" by (simp add: e pow2_def)
  have "?n + 1 \<le> 2 ^ bit_length ?n" using b(2) by linarith
  then have "real (?n + 1) \<le> real (2 ^ bit_length ?n)" by (simp only: of_nat_le_iff)
  moreover have "x < real (?n + 1)" using True by simp linarith
  ultimately have "x < 2 ^ bit_length ?n" by simp
  moreover have "expo x + 1 = int (bit_length ?n)" using e bp by simp
  ultimately have "x < pow2 (expo x + 1)" by (simp add: pow2_def)
  with lo show ?thesis ..
next
  case False
  let ?c = "\<lceil>1 / x\<rceil>"
  let ?n = "nat (?c - 1)"
  from False assms have y: "1 < 1 / x" by simp
  then have c: "2 \<le> ?c" by (simp add: le_ceiling_iff) 
  then have n: "0 < ?n" by simp
  from bit_length_bounds [OF n]
  have b: "2 ^ (bit_length ?n - 1) \<le> ?n" "?n < 2 ^ bit_length ?n" by simp_all
  have bp: "0 < bit_length ?n" using n by (simp add: bit_length_pos)
  have e: "expo x = - int (bit_length ?n)" using False by (simp add: expo_def)
  have "real ?n + 1 \<le> 2 ^ bit_length ?n"
  proof -
    have "?n + 1 \<le> 2 ^ bit_length ?n" using b(2) by linarith
    then have "real (?n + 1) \<le> real (2 ^ bit_length ?n)" by (simp only: of_nat_le_iff)
    then show ?thesis by simp
  qed
  moreover have "1 / x \<le> real ?n + 1" using c by simp linarith
  ultimately have "1 / x \<le> 2 ^ bit_length ?n" by simp
  then have lo: "pow2 (expo x) \<le> x"
    using assms bp by (simp add: e pow2_def field_simps)
  have "real (2 ^ (bit_length ?n - 1)) \<le> real ?n" using b(1) by (simp only: of_nat_le_iff)
  moreover have "real ?n < 1 / x" using c by simp linarith
  ultimately have "real (2 ^ (bit_length ?n - 1)) < 1 / x" by (rule le_less_trans)
  then have up: "2 ^ (bit_length ?n - 1) < 1 / x" by simp
  have "expo x + 1 = - int (bit_length ?n - 1)" using e bp by simp
  then have pw: "pow2 (expo x + 1) = 1 / 2 ^ (bit_length ?n - 1)"
    by (simp only: pow2_neg_nat)
  from up assms have "x < 1 / 2 ^ (bit_length ?n - 1)" by (simp add: field_simps)
  then have "x < pow2 (expo x + 1)" by (simp only: pw)
  with lo show ?thesis ..
qed

section \<open>Properties of the ids and of the layout loops\<close>

lemma digit_char_inj: "a < 10 \<Longrightarrow> b < 10 \<Longrightarrow> digit_char a = digit_char b \<Longrightarrow> a = b"
proof -
  assume a: "a < 10" and b: "b < 10" and eq: "digit_char a = digit_char b"
  have d: "distinct ''0123456789''" by simp
  have "a < length ''0123456789''" "b < length ''0123456789''" using a b by simp_all
  with d eq show "a = b" unfolding digit_char_def by (simp only: nth_eq_iff_index_eq)
qed

lemma digit_char_not_dash: "d < 10 \<Longrightarrow> digit_char d \<noteq> CHR ''-''"
proof -
  assume "d < 10"
  then have "d < length ''0123456789''" by simp
  then have "digit_char d \<in> set ''0123456789''"
    unfolding digit_char_def by (rule nth_mem)
  then show ?thesis by auto
qed

lemma string_of_nat_small: "n < 10 \<Longrightarrow> string_of_nat n = [digit_char n]"
  by (simp add: string_of_nat.simps)

lemma string_of_nat_large:
  "\<not> n < 10 \<Longrightarrow> string_of_nat n = string_of_nat (n div 10) @ [digit_char (n mod 10)]"
  by (subst string_of_nat.simps) simp

lemma string_of_nat_nonempty: "string_of_nat n \<noteq> []"
  by (cases "n < 10") (simp_all add: string_of_nat_small string_of_nat_large)

lemma string_of_nat_no_dash: "CHR ''-'' \<notin> set (string_of_nat n)"
proof (induction n rule: string_of_nat.induct)
  case (1 n)
  show ?case
  proof (cases "n < 10")
    case True
    then show ?thesis using digit_char_not_dash [of n] by (auto simp: string_of_nat_small)
  next
    case False
    have "n mod 10 < 10" by simp
    then have "digit_char (n mod 10) \<noteq> CHR ''-''" by (rule digit_char_not_dash)
    with 1 [OF False] False show ?thesis by (auto simp: string_of_nat_large)
  qed
qed

lemma string_of_nat_inj: "string_of_nat n = string_of_nat m \<Longrightarrow> n = m"
proof (induction n arbitrary: m rule: string_of_nat.induct)
  case (1 n)
  show ?case
  proof (cases "n < 10")
    case n: True
    show ?thesis
    proof (cases "m < 10")
      case True
      with n "1.prems" show ?thesis
        by (simp add: string_of_nat_small digit_char_inj)
    next
      case False
      with n "1.prems" string_of_nat_nonempty [of "m div 10"] show ?thesis
        by (simp add: string_of_nat_small string_of_nat_large)
    qed
  next
    case n: False
    show ?thesis
    proof (cases "m < 10")
      case True
      with n "1.prems" string_of_nat_nonempty [of "n div 10"] show ?thesis
        by (simp add: string_of_nat_small string_of_nat_large)
    next
      case False
      with n "1.prems"
      have eq: "string_of_nat (n div 10) = string_of_nat (m div 10)"
        and dg: "digit_char (n mod 10) = digit_char (m mod 10)"
        by (simp_all add: string_of_nat_large)
      from "1.IH" [OF n eq] have "n div 10 = m div 10" .
      moreover from dg have "n mod 10 = m mod 10" by (simp add: digit_char_inj)
      ultimately show ?thesis by (metis div_mult_mod_eq)
    qed
  qed
qed

lemma split_at_dash:
  "c \<notin> set s1 \<Longrightarrow> c \<notin> set s2 \<Longrightarrow> s1 @ c # t1 = s2 @ c # t2 \<Longrightarrow> s1 = s2 \<and> t1 = t2"
proof (induction s1 arbitrary: s2)
  case Nil
  then show ?case by (cases s2) auto
next
  case (Cons x xs)
  then show ?case by (cases s2) auto
qed

lemma fg_id_inj: "fg_id r c = fg_id r' c' \<longleftrightarrow> r = r' \<and> c = c'"
proof
  assume "fg_id r c = fg_id r' c'"
  then have "string_of_nat r @ CHR ''-'' # string_of_nat c
               = string_of_nat r' @ CHR ''-'' # string_of_nat c'"
    by (simp add: fg_id_def)
  then have "string_of_nat r = string_of_nat r' \<and> string_of_nat c = string_of_nat c'"
    by (rule split_at_dash [OF string_of_nat_no_dash string_of_nat_no_dash])
  then show "r = r' \<and> c = c'" by (auto dest: string_of_nat_inj)
qed simp

lemma bg_id_inj: "bg_id r c = bg_id r' c' \<longleftrightarrow> r = r' \<and> c = c'"
proof
  assume "bg_id r c = bg_id r' c'"
  then have "string_of_nat r @ CHR ''-'' # string_of_nat c
               = string_of_nat r' @ CHR ''-'' # string_of_nat c'"
    by (simp add: bg_id_def)
  then have "string_of_nat r = string_of_nat r' \<and> string_of_nat c = string_of_nat c'"
    by (rule split_at_dash [OF string_of_nat_no_dash string_of_nat_no_dash])
  then show "r = r' \<and> c = c'" by (auto dest: string_of_nat_inj)
qed simp

lemma ids_small:
  "fg_id 0 0 = ''fg-0-0''" "fg_id 0 (Suc 0) = ''fg-0-1''"
  "fg_id (Suc 0) 0 = ''fg-1-0''" "fg_id (Suc 0) (Suc 0) = ''fg-1-1''"
  "bg_id 0 0 = ''bg-0-0''" "bg_id 0 (Suc 0) = ''bg-0-1''"
  by (simp_all add: fg_id_def bg_id_def string_of_nat_small digit_char_def)

lemma position_in_grid:
  "(\<exists>k < rows * cols. k div cols = r \<and> k mod cols = c) \<longleftrightarrow> r < rows \<and> c < (cols::nat)"
proof
  assume "\<exists>k < rows * cols. k div cols = r \<and> k mod cols = c"
  then obtain k where k: "k < rows * cols" "k div cols = r" "k mod cols = c" by blast
  from k(1) have pos: "cols > 0" by (cases cols) simp_all
  from k(1) have "k div cols < rows" by (simp add: less_mult_imp_div_less)
  with k pos show "r < rows \<and> c < cols" by auto
next
  assume rc: "r < rows \<and> c < cols"
  then have "r * cols + c < r * cols + cols" by simp
  also have "\<dots> = Suc r * cols" by simp
  also have "\<dots> \<le> rows * cols" using rc by (intro mult_le_mono1) simp
  finally have "r * cols + c < rows * cols" .
  moreover have "(r * cols + c) div cols = r" "(r * cols + c) mod cols = c" using rc by simp_all
  ultimately show "\<exists>k < rows * cols. k div cols = r \<and> k mod cols = c" by blast
qed

lemma fg_cols_fold:
  "fold (fg_push cur colors r) [0..<n] (sqs, i, rs)
     = (sqs @ map (\<lambda>c. fg_square cur colors r c (i + c) (rs !! c)) [0..<n], i + n, sdrop n rs)"
  by (induction n) (simp_all add: fg_push_def)

lemma bg_cols_fold:
  "fold (bg_push colors r) [0..<n] (sqs, rs)
     = (sqs @ map (\<lambda>c. bg_square colors r c (rs !! c)) [0..<n], sdrop n rs)"
  by (induction n) (simp_all add: bg_push_def)

lemma upt_next_row: "[0..<Suc m * n] = [0..<m * n] @ map (\<lambda>c. m * n + c) [0..<n]"
proof -
  have "[0..<m * n + n] = [0..<m * n] @ [m * n..<m * n + n]"
    by (rule upt_add_eq_append) simp
  moreover have "[m * n..<m * n + n] = map (\<lambda>c. m * n + c) [0..<n]"
    using map_add_upt [of "m * n" n] by (simp add: add.commute)
  ultimately show ?thesis by (simp add: add.commute)
qed

lemma next_row_map:
  assumes "\<And>c. c < n \<Longrightarrow> g c = f (m * n + c)"
  shows "map f [0..<m * n] @ map g [0..<n] = map f [0..<Suc m * n]"
proof -
  have "map g [0..<n] = map (\<lambda>c. f (m * n + c)) [0..<n]"
    using assms by simp
  then show ?thesis unfolding upt_next_row by (simp add: comp_def)
qed

lemma fg_rows_fold:
  "fold (\<lambda>r. fold (fg_push cur colors r) [0..<cols]) [0..<m] ([], 0, rs)
     = (map (\<lambda>k. fg_square cur colors (k div cols) (k mod cols) k (rs !! k)) [0..<m * cols],
        m * cols, sdrop (m * cols) rs)"
proof (induction m)
  case 0
  show ?case by simp
next
  case (Suc m)
  let ?f = "\<lambda>k. fg_square cur colors (k div cols) (k mod cols) k (rs !! k)"
  let ?g = "\<lambda>c. fg_square cur colors m c (m * cols + c) (sdrop (m * cols) rs !! c)"
  have "?g c = ?f (m * cols + c)" if "c < cols" for c
    using that by (simp add: sdrop_snth)
  then have "map ?f [0..<m * cols] @ map ?g [0..<cols] = map ?f [0..<Suc m * cols]"
    by (rule next_row_map)
  then show ?case
    using Suc by (simp add: fg_cols_fold add.commute)
qed

lemma bg_rows_fold:
  "fold (\<lambda>r. fold (bg_push colors r) [0..<cols]) [0..<m] ([], rs)
     = (map (\<lambda>k. bg_square colors (k div cols) (k mod cols) (rs !! k)) [0..<m * cols],
        sdrop (m * cols) rs)"
proof (induction m)
  case 0
  show ?case by simp
next
  case (Suc m)
  let ?f = "\<lambda>k. bg_square colors (k div cols) (k mod cols) (rs !! k)"
  let ?g = "\<lambda>c. bg_square colors m c (sdrop (m * cols) rs !! c)"
  have "?g c = ?f (m * cols + c)" if "c < cols" for c
    using that by (simp add: sdrop_snth)
  then have "map ?f [0..<m * cols] @ map ?g [0..<cols] = map ?f [0..<Suc m * cols]"
    by (rule next_row_map)
  then show ?case
    using Suc by (simp add: bg_cols_fold add.commute)
qed

lemma foreground_cells_eq:
  "foreground_cells rows cols cur colors rs
     = (map (\<lambda>k. fg_square cur colors (k div cols) (k mod cols) k (rs !! k)) [0..<rows * cols],
        rows * cols, sdrop (rows * cols) rs)"
  unfolding foreground_cells_def by (rule fg_rows_fold)

lemma background_cells_eq:
  "background_cells rows cols colors rs
     = (map (\<lambda>k. bg_square colors (k div cols) (k mod cols) (rs !! k)) [0..<rows * cols],
        sdrop (rows * cols) rs)"
  unfolding background_cells_def by (rule bg_rows_fold)

lemma curved_loop_exit:
  "\<not> int (length cur) < cnt \<Longrightarrow> curved_loop totalSquares cnt cur rs = Some (cur, rs)"
  by (subst curved_loop.simps) simp

lemma curved_loop_step:
  "int (length cur) < cnt \<Longrightarrow>
   curved_loop totalSquares cnt cur rs
     = curved_loop totalSquares cnt (set_add (random_index (shd rs) totalSquares) cur) (stl rs)"
  by (subst curved_loop.simps) simp

lemma curved_loop_returns:
  assumes "distinct cur"
    and "cnt \<le> int (card (set cur \<union> (\<lambda>r. random_index r totalSquares) ` set (stake n rs)))"
  shows "\<exists>res. curved_loop totalSquares cnt cur rs = Some res"
  using assms
proof (induction n arbitrary: cur rs)
  case 0
  then have "\<not> int (length cur) < cnt" by (simp add: distinct_card)
  then show ?case by (simp add: curved_loop_exit)
next
  case (Suc n)
  show ?case
  proof (cases "int (length cur) < cnt")
    case False
    then show ?thesis by (simp add: curved_loop_exit)
  next
    case True
    let ?cur = "set_add (random_index (shd rs) totalSquares) cur"
    have "set ?cur \<union> (\<lambda>r. random_index r totalSquares) ` set (stake n (stl rs))
            = set cur \<union> (\<lambda>r. random_index r totalSquares) ` set (stake (Suc n) rs)"
      by (auto simp: set_set_add)
    with Suc.prems(2)
    have "cnt \<le> int (card (set ?cur \<union> (\<lambda>r. random_index r totalSquares) ` set (stake n (stl rs))))"
      by simp
    with Suc.IH [of ?cur "stl rs"] Suc.prems(1)
    have "\<exists>res. curved_loop totalSquares cnt ?cur (stl rs) = Some res"
      by (simp add: distinct_set_add)
    then show ?thesis by (simp add: curved_loop_step [OF True])
  qed
qed

lemma curved_loop_sound:
  assumes major: "curved_loop totalSquares cnt cur rs = Some res"
  shows "distinct cur \<and> (\<forall>i \<in> set cur. 0 \<le> i \<and> i < int totalSquares) \<and>
         int (length cur) \<le> cnt \<and> cnt \<le> int totalSquares \<and> unit_draws rs \<longrightarrow>
         distinct (fst res) \<and> (\<forall>i \<in> set (fst res). 0 \<le> i \<and> i < int totalSquares) \<and>
         int (length (fst res)) = cnt"
proof (rule curved_loop.raw_induct
    [where P = "\<lambda>t c cur rs res.
       distinct cur \<and> (\<forall>i \<in> set cur. 0 \<le> i \<and> i < int t) \<and>
       int (length cur) \<le> c \<and> c \<le> int t \<and> unit_draws rs \<longrightarrow>
       distinct (fst res) \<and> (\<forall>i \<in> set (fst res). 0 \<le> i \<and> i < int t) \<and>
       int (length (fst res)) = c", OF _ major])
  fix loop :: "nat \<Rightarrow> int \<Rightarrow> int list \<Rightarrow> rng \<Rightarrow> (int list \<times> rng) option"
    and t c cur rs res
  assume IH: "\<And>t c cur rs y. loop t c cur rs = Some y \<Longrightarrow>
       distinct cur \<and> (\<forall>i \<in> set cur. 0 \<le> i \<and> i < int t) \<and>
       int (length cur) \<le> c \<and> c \<le> int t \<and> unit_draws rs \<longrightarrow>
       distinct (fst y) \<and> (\<forall>i \<in> set (fst y). 0 \<le> i \<and> i < int t) \<and>
       int (length (fst y)) = c"
    and body: "(if int (length cur) < c
                then loop t c (set_add (random_index (shd rs) t) cur) (stl rs)
                else Some (cur, rs)) = Some res"
  show "distinct cur \<and> (\<forall>i \<in> set cur. 0 \<le> i \<and> i < int t) \<and>
       int (length cur) \<le> c \<and> c \<le> int t \<and> unit_draws rs \<longrightarrow>
       distinct (fst res) \<and> (\<forall>i \<in> set (fst res). 0 \<le> i \<and> i < int t) \<and>
       int (length (fst res)) = c"
  proof
    assume inv: "distinct cur \<and> (\<forall>i \<in> set cur. 0 \<le> i \<and> i < int t) \<and>
       int (length cur) \<le> c \<and> c \<le> int t \<and> unit_draws rs"
    show "distinct (fst res) \<and> (\<forall>i \<in> set (fst res). 0 \<le> i \<and> i < int t) \<and>
       int (length (fst res)) = c"
    proof (cases "int (length cur) < c")
      case False
      with body have "res = (cur, rs)" by simp
      with False inv show ?thesis by simp
    next
      case True
      let ?i = "random_index (shd rs) t"
      let ?cur = "set_add ?i cur"
      from True body have call: "loop t c ?cur (stl rs) = Some res" by simp
      from True inv have pos: "t > 0" by linarith
      from inv have draw: "0 \<le> shd rs" "shd rs < 1" by (simp_all add: unit_draws_shd)
      have "0 \<le> ?i" using draw by (simp add: random_index_def)
      moreover have "?i < int t" using draw(2) pos by (rule random_index_less)
      ultimately have range: "\<forall>i \<in> set ?cur. 0 \<le> i \<and> i < int t"
        using inv by (simp add: set_set_add)
      have len: "int (length ?cur) \<le> c"
        using True length_set_add_le [of ?i cur] by simp
      have d: "distinct ?cur" using inv by (simp add: distinct_set_add)
      have u: "unit_draws (stl rs)" using inv by (simp add: unit_draws_stl)
      have le: "c \<le> int t" using inv by simp
      from IH [OF call] d range len le u show ?thesis by blast
    qed
  qed
qed

lemma upt_4: "[0..<4] = [0, 1, 2, 3::nat]"
  by (simp add: upt_rec)

lemma upt_2: "[0..<2] = [0, 1::nat]"
  by (simp add: upt_rec)

lemma curved_count_nonneg: "0 \<le> p \<Longrightarrow> 0 \<le> curved_count rows cols p"
proof -
  assume "0 \<le> p"
  then have "0 \<le> real (rows * cols) * p" by simp
  then have "0 \<le> fl (real (rows * cols) * p) / 100" using fl_nonneg by simp
  then have "0 \<le> fl (fl (real (rows * cols) * p) / 100)" by (rule fl_nonneg)
  then show ?thesis by (simp add: curved_count_def)
qed

lemma curved_count_le:
  assumes "0 \<le> p" "p \<le> 100" "rows * cols < 2 ^ 46"
  shows "curved_count rows cols p \<le> int (rows * cols)"
proof -
  let ?t = "rows * cols"
  have t: "int (100 * ?t) < 2 ^ 53"
  proof -
    have "100 * ?t < 100 * 2 ^ 46" using assms(3) by linarith
    also have "\<dots> < (2::nat) ^ 53" by simp
    finally show ?thesis by (metis of_nat_less_numeral_power_cancel_iff)
  qed
  have t2: "int ?t < 2 ^ 53"
  proof -
    have "?t < (2::nat) ^ 53" using assms(3) by (rule less_trans) simp
    then show ?thesis by (metis of_nat_less_numeral_power_cancel_iff)
  qed
  have 1: "0 \<le> real ?t * p" using assms(1) by simp
  have "real ?t * p \<le> real ?t * 100" using assms(2) by (intro mult_left_mono) simp_all
  then have "real ?t * p \<le> of_int (int (100 * ?t))" by simp
  with 1 have "fl (real ?t * p) \<le> of_int (int (100 * ?t))" using t by (rule fl_le_int)
  then have 2: "fl (real ?t * p) / 100 \<le> of_int (int ?t)" by simp
  have "0 \<le> fl (real ?t * p) / 100" using fl_nonneg [OF 1] by simp
  then have "fl (fl (real ?t * p) / 100) \<le> of_int (int ?t)" using 2 t2 by (rule fl_le_int)
  then have "\<lfloor>fl (fl (real ?t * p) / 100)\<rfloor> \<le> \<lfloor>(of_int (int ?t))::real\<rfloor>" by (rule floor_mono)
  then have "\<lfloor>fl (fl (real ?t * p) / 100)\<rfloor> \<le> int ?t" by (simp only: floor_of_int)
  then show ?thesis unfolding curved_count_def .
qed

lemma curved_count_integer:
  assumes "p \<le> 100" "rows * cols < 2 ^ 46"
  shows "curved_count rows cols (real p) = int (rows * cols * p div 100)"
proof -
  let ?n = "rows * cols * p"
  let ?k = "?n div 100"
  have n: "?n < 2 ^ 53"
  proof -
    have "?n \<le> rows * cols * 100" using assms(1) by simp
    also have "\<dots> < 2 ^ 46 * 100" using assms(2) by linarith
    also have "\<dots> < (2::nat) ^ 53" by simp
    finally show ?thesis .
  qed
  have "fl (real (rows * cols) * real p) = fl (real ?n)" by simp
  also have "\<dots> = real ?n" using n by (rule fl_of_nat)
  finally have prod: "fl (real (rows * cols) * real p) = real ?n" .
  have split: "real ?n = 100 * real ?k + real (?n mod 100)"
    by (metis mult_div_mod_eq of_nat_add of_nat_mult of_nat_numeral)
  have lo: "of_int (int ?k) \<le> real ?n / 100" using split by simp
  have "real (?n mod 100) \<le> 99"
  proof -
    have "?n mod 100 \<le> 99" by simp 
    then show ?thesis by (metis of_nat_le_iff of_nat_numeral)
  qed
  then have hi: "real ?n / 100 \<le> of_int (int ?k + 1) - 1 / 100" using split by simp
  have x: "real ?n / 100 < 2 ^ 53"
  proof -
    have "real ?n < 2 ^ 53" using n by (metis of_nat_less_numeral_power_cancel_iff)
    then show ?thesis by simp
  qed
  have k: "int ?k + 1 \<le> 2 ^ 46"
  proof -
    have "?n \<le> rows * cols * 100" using assms(1) by simp
    then have "?k \<le> rows * cols * 100 div 100" by (rule div_le_mono)
    then have "?k \<le> rows * cols" by simp
    then have "?k < 2 ^ 46" using assms(2) by simp
    then have "Suc ?k \<le> 2 ^ 46" by simp
    then have "int (Suc ?k) \<le> 2 ^ 46" by (metis of_nat_le_numeral_power_cancel_iff)
    then show ?thesis by simp
  qed
  have nn: "0 \<le> real ?n / 100" by simp
  have "of_int (int ?k) \<le> fl (real ?n / 100)" using nn lo x by (rule fl_ge_int)
  moreover have "fl (real ?n / 100) < of_int (int ?k + 1)" using nn hi k by (rule fl_less_int)
  ultimately have "\<lfloor>fl (real ?n / 100)\<rfloor> = int ?k" by (simp add: floor_unique)
  then show ?thesis unfolding curved_count_def prod .
qed

text \<open>
  Two percentages that are not integers, as binary64 values: the one written
  \<^verbatim>\<open>83.33333333333333\<close> over six cells, where the rounded product is 500 and the count
  exceeds the exact floor, and the one written \<^verbatim>\<open>18.4\<close> over 375 cells, where the count
  is 68.
\<close>

lemma curved_count_at_18_4:
  "curved_count 15 25 (2589569785738035 / 140737488355328) = 68"
  by (simp add: curved_count_def fl_def fl_pos_def expo_def pow2_def round_half_even_def
      bit_length.simps Let_def)

lemma curved_count_tie:
  "curved_count 2 3 (5864062014805333 / 70368744177664) = 5"
  "\<lfloor>real (2 * 3) * (5864062014805333 / 70368744177664) / 100\<rfloor> = 4"
  by (simp_all add: curved_count_def fl_def fl_pos_def expo_def pow2_def round_half_even_def
      bit_length.simps Let_def)

lemma exact_floor_integer:
  "\<lfloor>real (rows * cols) * real p / 100\<rfloor> = int (rows * cols * p div 100)"
proof -
  have "\<lfloor>real (rows * cols * p) / real (100::nat)\<rfloor> = int (rows * cols * p div 100)"
    by (rule floor_divide_of_nat_eq)
  then show ?thesis by simp
qed

lemma curved_count_samples:
  "curved_count (Suc 0) 2 0 = 0" "curved_count (Suc 0) 2 50 = 1"
  "curved_count (Suc 0) 2 100 = 2" "curved_count 2 2 0 = 0"
  using curved_count_integer [of 0 "Suc 0" 2] curved_count_integer [of 50 "Suc 0" 2]
    curved_count_integer [of 100 "Suc 0" 2] curved_count_integer [of 0 2 2]
  by simp_all

lemma layout_effect_Some:
  assumes "layout_effect rows cols p bR bC colors rs = Some (fg, bg)"
  shows "\<exists>cur rs1. curved_loop (rows * cols) (curved_count rows cols p) [] rs = Some (cur, rs1) \<and>
           fg = map (\<lambda>k. fg_square cur colors (k div cols) (k mod cols) k (rs1 !! k)) [0..<rows * cols] \<and>
           bg = map (\<lambda>k. bg_square colors (k div bC) (k mod bC) (sdrop (rows * cols) rs1 !! k))
                  [0..<bR * bC]"
proof (cases "curved_loop (rows * cols) (curved_count rows cols p) [] rs")
  case None
  with assms show ?thesis by (simp add: layout_effect_def)
next
  case (Some sampled)
  obtain cur rs1 where s: "sampled = (cur, rs1)" by (cases sampled)
  from assms Some s show ?thesis
    by (simp add: layout_effect_def Let_def foreground_cells_eq background_cells_eq)
qed

lemma layout_effect_returns:
  assumes "curved_count rows cols p
             \<le> int (card ((\<lambda>r. random_index r (rows * cols)) ` set (stake n rs)))"
  shows "layout_effect rows cols p bR bC colors rs \<noteq> None"
proof -
  have "\<exists>res. curved_loop (rows * cols) (curved_count rows cols p) [] rs = Some res"
    by (rule curved_loop_returns) (use assms in simp_all)
  then show ?thesis by (auto simp: layout_effect_def Let_def)
qed

lemma rounded_count:
  assumes "distinct cur" "\<forall>i \<in> set cur. 0 \<le> i \<and> i < int n"
  shows "length (filter (\<lambda>k. int k \<in> set cur) [0..<n]) = length cur"
proof -
  let ?A = "{k. int k \<in> set cur} \<inter> set [0..<n]"
  have "int ` ?A = set cur"
  proof
    show "int ` ?A \<subseteq> set cur" by auto
    show "set cur \<subseteq> int ` ?A"
    proof
      fix i assume i: "i \<in> set cur"
      with assms(2) have "0 \<le> i" "i < int n" by auto
      then have "nat i \<in> ?A" "i = int (nat i)" using i by auto
      then show "i \<in> int ` ?A" by (rule_tac image_eqI)
    qed
  qed
  then have "card (int ` ?A) = card (set cur)" by simp
  moreover have "card (int ` ?A) = card ?A" by (rule card_image) (simp add: inj_on_def)
  moreover have "length (filter (\<lambda>k. int k \<in> set cur) [0..<n]) = card ?A"
    by (rule distinct_length_filter) simp
  ultimately show ?thesis using assms(1) by (simp add: distinct_card)
qed

lemma fg_grid_ids:
  "map id_sq (map (\<lambda>k. fg_square cur colors (k div cols) (k mod cols) k (d k)) [0..<n])
     = map (\<lambda>k. fg_id (k div cols) (k mod cols)) [0..<n]"
  by (simp add: fg_square_def)

lemma bg_grid_ids:
  "map id_sq (map (\<lambda>k. bg_square colors (k div cols) (k mod cols) (d k)) [0..<n])
     = map (\<lambda>k. bg_id (k div cols) (k mod cols)) [0..<n]"
  by (simp add: bg_square_def)

lemma fg_ids_distinct: "distinct (map (\<lambda>k. fg_id (k div cols) (k mod cols)) [0..<n])"
  by (simp add: distinct_map inj_on_def fg_id_inj) (metis div_mult_mod_eq)

lemma bg_ids_distinct: "distinct (map (\<lambda>k. bg_id (k div cols) (k mod cols)) [0..<n])"
  by (simp add: distinct_map inj_on_def bg_id_inj) (metis div_mult_mod_eq)

lemma cell_index: "r < rows \<Longrightarrow> c < cols \<Longrightarrow> r * cols + c < rows * (cols::nat)"
proof -
  assume rc: "r < rows" "c < cols"
  then have "r * cols + c < Suc r * cols" by simp
  also have "\<dots> \<le> rows * cols" using rc(1) by (intro mult_le_mono1) simp
  finally show ?thesis .
qed

lemma fg_ids_member:
  "fg_id r c \<in> set (map (\<lambda>k. fg_id (k div cols) (k mod cols)) [0..<rows * cols])
     \<longleftrightarrow> r < rows \<and> c < cols"
proof -
  have "fg_id r c \<in> set (map (\<lambda>k. fg_id (k div cols) (k mod cols)) [0..<rows * cols])
          \<longleftrightarrow> (\<exists>k < rows * cols. k div cols = r \<and> k mod cols = c)"
    by (auto simp: fg_id_inj)
  then show ?thesis by (simp only: position_in_grid)
qed

lemma bg_ids_member:
  "bg_id r c \<in> set (map (\<lambda>k. bg_id (k div cols) (k mod cols)) [0..<rows * cols])
     \<longleftrightarrow> r < rows \<and> c < cols"
proof -
  have "bg_id r c \<in> set (map (\<lambda>k. bg_id (k div cols) (k mod cols)) [0..<rows * cols])
          \<longleftrightarrow> (\<exists>k < rows * cols. k div cols = r \<and> k mod cols = c)"
    by (auto simp: bg_id_inj)
  then show ?thesis by (simp only: position_in_grid)
qed

lemma sample_grids_generated:
  "layout_effect 1 2 0 0 0 DEFAULT_COLORS (sconst 0) = Some (regular_1x2, [])"
  "layout_effect 1 2 100 0 0 DEFAULT_COLORS (0.1 ## 0.6 ## sconst 0) = Some (curved_1x2, [])"
  "layout_effect 1 2 50 0 0 DEFAULT_COLORS (0.6 ## sconst 0) = Some (mixed_1x2, [])"
  by (simp_all add: layout_effect_def curved_count_samples curved_loop_step curved_loop_exit
      foreground_cells_eq background_cells_eq upt_2 fg_square_def ids_small
      getRandomFrom_def js_nth_def random_index_def set_add_def DEFAULT_COLORS_def
      regular_1x2_def curved_1x2_def mixed_1x2_def)

lemma shape_fg_square:
  "shapeVariant (fg_square cur colors r c k d) = Rounded \<longleftrightarrow> int k \<in> set cur"
  by (simp add: shapeVariant_def truthy_def fg_square_def)

lemma shape_bg_square: "shapeVariant (bg_square colors r c d) = Regular"
  by (simp add: shapeVariant_def truthy_def bg_square_def)

lemma fg_grid_rounded:
  "filter (\<lambda>sq. shapeVariant sq = Rounded)
     (map (\<lambda>k. fg_square cur colors (k div cols) (k mod cols) k (d k)) [0..<n])
   = map (\<lambda>k. fg_square cur colors (k div cols) (k mod cols) k (d k))
       (filter (\<lambda>k. int k \<in> set cur) [0..<n])"
  by (simp add: filter_map comp_def shape_fg_square)

lemma layout_rounded_count:
  assumes "layout_effect rows cols p bR bC colors rs = Some (fg, bg)"
    and "0 \<le> p" and "p \<le> 100" and "unit_draws rs" and "rows * cols < 2 ^ 46"
  shows "int (length (filter (\<lambda>sq. shapeVariant sq = Rounded) fg)) = curved_count rows cols p"
proof -
  from layout_effect_Some [OF assms(1)] obtain cur rs1
    where loop: "curved_loop (rows * cols) (curved_count rows cols p) [] rs = Some (cur, rs1)"
      and fg: "fg = map (\<lambda>k. fg_square cur colors (k div cols) (k mod cols) k (rs1 !! k))
                      [0..<rows * cols]"
    by blast
  have "distinct [] \<and> (\<forall>i \<in> set []. 0 \<le> i \<and> i < int (rows * cols)) \<and>
        int (length []) \<le> curved_count rows cols p \<and>
        curved_count rows cols p \<le> int (rows * cols) \<and> unit_draws rs"
    using curved_count_nonneg [OF assms(2)] curved_count_le [OF assms(2,3,5)] assms(4) by simp
  with curved_loop_sound [OF loop]
  have cur: "distinct cur" "\<forall>i \<in> set cur. 0 \<le> i \<and> i < int (rows * cols)"
    "int (length cur) = curved_count rows cols p"
    by simp_all
  have "length (filter (\<lambda>sq. shapeVariant sq = Rounded) fg) = length cur"
    unfolding fg fg_grid_rounded by (simp add: rounded_count [OF cur(1,2)])
  then show ?thesis using cur(3) by simp
qed

lemma two_by_two_example:
  "\<exists>fg bg. layout_effect 2 2 0 backgroundRows backgroundCols colors rs = Some (fg, bg) \<and>
     length fg = 4 \<and>
     map id_sq fg = [''fg-0-0'', ''fg-0-1'', ''fg-1-0'', ''fg-1-1''] \<and>
     filter (\<lambda>sq. shapeVariant sq = Rounded) fg = []"
  by (simp add: layout_effect_def curved_count_samples curved_loop_exit foreground_cells_eq upt_4
      fg_square_def ids_small shapeVariant_def truthy_def)

lemma background_generated:
  "layout_effect 1 2 0 1 2 DEFAULT_COLORS (sconst 0) = Some (regular_1x2, background_1x2)"
  by (simp add: layout_effect_def curved_count_samples curved_loop_exit
      foreground_cells_eq background_cells_eq upt_2 fg_square_def bg_square_def ids_small
      getRandomFrom_def js_nth_def random_index_def DEFAULT_COLORS_def
      regular_1x2_def background_1x2_def)

section \<open>The deactivation step (C1)\<close>

text \<open>
  Claim C1, as the code has it. The callback scheduled by a round runs through the whole
  set \<^verbatim>\<open>newActiveIds\<close> that the round committed. The step only removes ids, and it leaves
  alone every id that is not in that committed set. The committed set is a copy of the set
  active before the round plus the ids picked in the round, so the ids that were active
  before the round are among the candidates.
\<close>

theorem deactivation_confined_to_snapshot:
  "set (deactivation_step newActiveIds prev rs) \<subseteq> set prev \<and>
   set prev - set newActiveIds \<subseteq> set (deactivation_step newActiveIds prev rs) \<and>
   set activeSquares \<subseteq> set (fst (fg_round squares maxActiveSquares activeSquares rs'))"
  unfolding deactivation_step_def
  by (intro conjI) (rule deactivate_sub deactivate_keep fg_round_mono)+

text \<open>
  Claim C1 as stated fails, on the layout generated for one row and two columns. After
  the first tick and its deactivation step \<^verbatim>\<open>fg-0-0\<close> is active. The second tick picks
  only \<^verbatim>\<open>fg-0-1\<close>, yet its callback closes over both ids, and with a draw of 0.9 the
  second deactivation step removes \<^verbatim>\<open>fg-0-0\<close>, an id that was active before that round
  began.
\<close>

theorem deactivation_removes_previously_active:
  "layout_effect 1 2 0 0 0 DEFAULT_COLORS (sconst 0) = Some (regular_1x2, []) \<and>
   activeIds (fg_run regular_1x2 8 [Tick (sconst 0), Timeout 0 (sconst 0.1)]) = [''fg-0-0''] \<and>
   timeouts (fg_run regular_1x2 8 [Tick (sconst 0), Timeout 0 (sconst 0.1), Tick (sconst 0)])
     = [[''fg-0-0'', ''fg-0-1'']] \<and>
   activeIds (fg_run regular_1x2 8
      [Tick (sconst 0), Timeout 0 (sconst 0.1), Tick (sconst 0), Timeout 0 (0.9 ## sconst 0.1)])
     = [''fg-0-1'']"
  using sample_grids_generated(1)
  by (simp add: regular_1x2_def round_defs layer_defs)

section \<open>Cleanup (C2)\<close>

text \<open>
  Claim C2, as the code has it. The cleanup cancels the repeating timer and nothing else:
  the one-shot timers stay pending. From the cleanup until the effect body runs again, a
  tick does nothing, so whatever fires in that time adds no id to the active-id set of
  either layer; the callbacks that are still pending can fire and can only remove ids.
\<close>

theorem cleanup_cancels_rounds_only:
  assumes "Setup \<notin> set evs"
  shows "\<not> interval (foldl (fg_event squares maxActiveSquares) (cleanup s) evs) \<and>
         set (activeIds (foldl (fg_event squares maxActiveSquares) (cleanup s) evs))
           \<subseteq> set (activeIds s) \<and>
         \<not> interval (foldl (bg_event backgroundSquares maxBackgroundActive) (cleanup s) evs) \<and>
         set (activeIds (foldl (bg_event backgroundSquares maxBackgroundActive) (cleanup s) evs))
           \<subseteq> set (activeIds s) \<and>
         timeouts (cleanup s) = timeouts s"
proof -
  have off: "\<not> interval (cleanup s)" and same: "activeIds (cleanup s) = activeIds s"
    by (simp_all add: cleanup_def)
  have "\<not> interval (foldl (fg_event squares maxActiveSquares) (cleanup s) evs) \<and>
        set (activeIds (foldl (fg_event squares maxActiveSquares) (cleanup s) evs))
          \<subseteq> set (activeIds (cleanup s))"
    using assms off by (rule disarmed_run [rotated]) (rule fg_event_disarmed)
  moreover
  have "\<not> interval (foldl (bg_event backgroundSquares maxBackgroundActive) (cleanup s) evs) \<and>
        set (activeIds (foldl (bg_event backgroundSquares maxBackgroundActive) (cleanup s) evs))
          \<subseteq> set (activeIds (cleanup s))"
    using assms off by (rule disarmed_run [rotated]) (rule bg_event_disarmed)
  moreover have "timeouts (cleanup s) = timeouts s" by (simp add: cleanup_def)
  ultimately show ?thesis by (simp add: same)
qed

text \<open>
  C2 as amended, after the cleanup that follows one foreground tick: the callback of that
  tick is still pending, and further ticks do nothing.
\<close>

theorem cleanup_cancels_rounds_only_witness:
  "Setup \<notin> set [Tick (sconst 0), Tick (sconst 0)] \<and>
   activeIds (fg_run regular_1x2 8 [Tick (sconst 0)]) = [''fg-0-0''] \<and>
   timeouts (cleanup (fg_run regular_1x2 8 [Tick (sconst 0)])) = [[''fg-0-0'']] \<and>
   activeIds (foldl (fg_event regular_1x2 8) (cleanup (fg_run regular_1x2 8 [Tick (sconst 0)]))
      [Tick (sconst 0), Tick (sconst 0)]) = [''fg-0-0''] \<and>
   \<not> interval (foldl (fg_event regular_1x2 8) (cleanup (fg_run regular_1x2 8 [Tick (sconst 0)]))
      [Tick (sconst 0), Tick (sconst 0)])"
  using cleanup_cancels_rounds_only
    [of "[Tick (sconst 0), Tick (sconst 0)]" regular_1x2 8
      "fg_run regular_1x2 8 [Tick (sconst 0)]" "[]" 0]
  by (simp add: regular_1x2_def round_defs layer_defs)

text \<open>
  Claim C2 as stated fails, on the layouts generated for one row and two columns in each
  layer. The tick commits a new set; the set is a dependency of the effect, so the
  runtime runs the cleanup and then the effect body again. The one-shot timer made by the
  tick is still pending; when it fires, after the cleanup has run, its callback changes
  the active-id set of the mounted component.
\<close>

theorem timeout_after_cleanup_mutates:
  "layout_effect 1 2 0 1 2 DEFAULT_COLORS (sconst 0) = Some (regular_1x2, background_1x2) \<and>
   fg_run regular_1x2 8 [Tick (sconst 0), Cleanup, Setup]
     = \<lparr>activeIds = [''fg-0-0''], interval = True, timeouts = [[''fg-0-0'']]\<rparr> \<and>
   activeIds (fg_run regular_1x2 8 [Tick (sconst 0), Cleanup, Setup, Timeout 0 (sconst 0.9)])
     = [] \<and>
   bg_run background_1x2 3 [Tick (sconst 0), Cleanup, Setup]
     = \<lparr>activeIds = [''bg-0-0''], interval = True, timeouts = [[''bg-0-0'']]\<rparr> \<and>
   activeIds (bg_run background_1x2 3 [Tick (sconst 0), Cleanup, Setup, Timeout 0 (sconst 0.9)])
     = []"
  using background_generated
  by (simp add: regular_1x2_def background_1x2_def round_defs layer_defs)

section \<open>The caps (C3, C4)\<close>

text \<open>
  Claim C3, as the code has it. The regular path makes at most
  \<open>min (random integer in [1,3]) (maxActiveSquares - size)\<close> picks, none when that budget
  is not positive, so it never takes the size of the set above the larger of its size
  before the round and \<^verbatim>\<open>maxActiveSquares\<close>; the curved path adds at most one id in a
  round; so a round that starts at or below the cap ends at most one above it.
\<close>

theorem fg_round_cap:
  "length (fst (fg_regular_path squares maxActiveSquares activeSquares rs))
     \<le> length activeSquares +
         nat (min (random_index (shd rs) 3 + 1)
                  (int maxActiveSquares - int (length activeSquares))) \<and>
   length (fst (fg_regular_path squares maxActiveSquares activeSquares rs))
     \<le> max (length activeSquares) maxActiveSquares \<and>
   length (fst (fg_round squares maxActiveSquares activeSquares rs))
     \<le> Suc (length (fst (fg_regular_path squares maxActiveSquares activeSquares rs))) \<and>
   (length activeSquares \<le> maxActiveSquares \<longrightarrow>
      length (fst (fg_round squares maxActiveSquares activeSquares rs)) \<le> maxActiveSquares + 1)"
proof -
  let ?reg = "fg_regular_path squares maxActiveSquares activeSquares rs"
  have a: "length (fst ?reg) \<le> max (length activeSquares) maxActiveSquares"
    by (rule fg_regular_path_length)
  have b: "length (fst (fg_round squares maxActiveSquares activeSquares rs)) \<le> Suc (length (fst ?reg))"
    unfolding fg_round_def Let_def by (rule fg_curved_path_length)
  have c: "length (fst ?reg) \<le> length activeSquares +
         nat (min (random_index (shd rs) 3 + 1)
                  (int maxActiveSquares - int (length activeSquares)))"
    by (rule fg_regular_path_picks)
  from a b c show ?thesis by auto
qed

text \<open>
  The bound of C3 is met: with a cap of one, a round from the empty set over one regular
  and one curved cell activates both.
\<close>

theorem fg_round_cap_witness:
  "length ([]::string list) \<le> 1 \<and>
   fst (fg_round mixed_1x2 1 [] (sconst 0.1)) = [''fg-0-0'', ''fg-0-1''] \<and>
   length (fst (fg_round mixed_1x2 1 [] (sconst 0.1))) \<le> 1 + 1"
  using fg_round_cap [of mixed_1x2 1 "[]" "sconst 0.1"]
  by (simp add: mixed_1x2_def round_defs)

text \<open>
  Claim C3 as stated fails over the reachable states: the curved path ignores the budget
  in every round, so the excess adds up. With a cap of zero and the layout generated for
  two cells at 100 percent, a tick, a deactivation step that keeps the id and a second
  tick leave two ids active.
\<close>

theorem curved_path_exceeds_cap_by_two:
  "layout_effect 1 2 100 0 0 DEFAULT_COLORS (0.1 ## 0.6 ## sconst 0) = Some (curved_1x2, []) \<and>
   activeIds (fg_run curved_1x2 0
     [Tick (0.1 ## sconst 0), Timeout 0 (sconst 0.1), Tick (0.1 ## sconst 0)])
     = [''fg-0-0'', ''fg-0-1''] \<and>
   \<not> length (activeIds (fg_run curved_1x2 0
     [Tick (0.1 ## sconst 0), Timeout 0 (sconst 0.1), Tick (0.1 ## sconst 0)])) \<le> 0 + 1"
  using sample_grids_generated(2)
  by (simp add: curved_1x2_def round_defs layer_defs)

text \<open>
  Claim C4. After any history of ticks, deactivation steps and cleanups from the mounted
  layer with its empty set, the background set has no repetitions and its size is at most
  \<^verbatim>\<open>maxBackgroundActive\<close>: a round makes at most
  \<open>min (random integer in [1,2]) (maxBackgroundActive - size)\<close> picks, and a deactivation
  step only removes ids.
\<close>

theorem background_cap_is_hard:
  "distinct (activeIds (bg_run backgroundSquares maxBackgroundActive evs)) \<and>
   length (activeIds (bg_run backgroundSquares maxBackgroundActive evs)) \<le> maxBackgroundActive \<and>
   (bg_round backgroundSquares maxBackgroundActive activeBackgroundSquares rs = Some res \<longrightarrow>
      length (fst res)
        \<le> length activeBackgroundSquares +
            nat (min (random_index (shd rs) 2 + 1)
                     (int maxBackgroundActive - int (length activeBackgroundSquares)))) \<and>
   set (deactivation_step newActiveIds prev rs') \<subseteq> set prev"
proof -
  have "distinct (activeIds (bg_run backgroundSquares maxBackgroundActive evs)) \<and>
        length (activeIds (bg_run backgroundSquares maxBackgroundActive evs)) \<le> maxBackgroundActive"
    unfolding bg_run_def
    by (rule run_invariant
          [where P = "\<lambda>s. distinct (activeIds s) \<and> length (activeIds s) \<le> maxBackgroundActive"])
       (simp_all add: bg_event_invariant mount_def)
  moreover have "set (deactivation_step newActiveIds prev rs') \<subseteq> set prev"
    unfolding deactivation_step_def by (rule deactivate_sub)
  ultimately show ?thesis using bg_round_picks by blast
qed

text \<open>C4 at a cap of one over two cells: the second tick has no budget left.\<close>

theorem background_cap_is_hard_witness:
  "bg_round background_1x2 1 [] (sconst 0.9) = Some ([''bg-0-1''], sconst 0.9) \<and>
   length (fst ([''bg-0-1''], sconst (0.9::real)))
     \<le> length ([]::string list) +
         nat (min (random_index (shd (sconst 0.9)) 2 + 1) (int 1 - int (length ([]::string list)))) \<and>
   activeIds (bg_run background_1x2 1 [Tick (sconst 0.9), Tick (sconst 0.9)]) = [''bg-0-1''] \<and>
   length (activeIds (bg_run background_1x2 1 [Tick (sconst 0.9), Tick (sconst 0.9)])) \<le> 1"
  using background_cap_is_hard
    [of background_1x2 1 "[Tick (sconst 0.9), Tick (sconst 0.9)]" "[]" "sconst 0.9"
      "([''bg-0-1''], sconst 0.9)"]
  by (simp add: background_1x2_def round_defs layer_defs)

section \<open>Regeneration and stale ids (C5)\<close>

text \<open>
  Claim C5, as the code has it. Ids are made of the layer and the position only, so an
  id \<^verbatim>\<open>fg-r-c\<close> (or \<^verbatim>\<open>bg-r-c\<close>) left in an active-id set matches a cell of a newly
  generated layout exactly when the position \<open>(r, c)\<close> lies inside the new grid.
\<close>

theorem stale_ids_match_by_position:
  assumes "layout_effect rows cols curvedPercentage backgroundRows backgroundCols colors rs
             = Some (fg, bg)"
  shows "(fg_id r c \<in> set (map id_sq fg) \<longleftrightarrow> r < rows \<and> c < cols) \<and>
         (bg_id r c \<in> set (map id_sq bg) \<longleftrightarrow> r < backgroundRows \<and> c < backgroundCols)"
proof -
  from layout_effect_Some [OF assms] obtain cur rs1
    where fg: "fg = map (\<lambda>k. fg_square cur colors (k div cols) (k mod cols) k (rs1 !! k))
                      [0..<rows * cols]"
      and bg: "bg = map (\<lambda>k. bg_square colors (k div backgroundCols) (k mod backgroundCols)
                             (sdrop (rows * cols) rs1 !! k))
                    [0..<backgroundRows * backgroundCols]"
    by blast
  show ?thesis
    unfolding fg bg fg_grid_ids bg_grid_ids by (simp only: fg_ids_member bg_ids_member)
qed

text \<open>C5 as amended, at a position inside and a position outside a grid of one row.\<close>

theorem stale_ids_match_by_position_witness:
  "layout_effect 1 2 0 1 2 DEFAULT_COLORS (sconst 0) = Some (regular_1x2, background_1x2) \<and>
   fg_id 0 1 \<in> set (map id_sq regular_1x2) \<and> fg_id 1 0 \<notin> set (map id_sq regular_1x2) \<and>
   bg_id 0 1 \<in> set (map id_sq background_1x2) \<and> bg_id 1 0 \<notin> set (map id_sq background_1x2)"
  using background_generated
    stale_ids_match_by_position [OF background_generated, of 0 1]
    stale_ids_match_by_position [OF background_generated, of 1 0]
  by simp

text \<open>
  Claim C5 as stated fails. A tick on the layout for percentage 0 activates \<^verbatim>\<open>fg-0-0\<close>;
  the layout effect neither reads nor writes the active-id set, so after the percentage
  changes to 50 the stale id is still there, and the regenerated layout has a cell with
  that very id.
\<close>

theorem stale_id_matches_new_cell:
  "layout_effect 1 2 0 0 0 DEFAULT_COLORS (sconst 0) = Some (regular_1x2, []) \<and>
   activeIds (fg_run regular_1x2 8 [Tick (sconst 0)]) = [''fg-0-0''] \<and>
   layout_effect 1 2 50 0 0 DEFAULT_COLORS (0.6 ## sconst 0) = Some (mixed_1x2, []) \<and>
   ''fg-0-0'' \<in> set (map id_sq mixed_1x2)"
  using sample_grids_generated(1,3)
  by (simp add: regular_1x2_def mixed_1x2_def round_defs layer_defs)

section \<open>The generated layouts (C6, C7)\<close>

text \<open>
  Claim C6, as the code has it. For a percentage between 0 and 100 and draws in the unit
  interval: whenever the layout effect returns, the foreground layout has \<open>rows * cols\<close>
  cells with pairwise distinct ids, the cell of row \<open>r\<close> and column \<open>c\<close> has the id
  \<^verbatim>\<open>fg-r-c\<close>, and, for fewer than \<open>2 ^ 46\<close> cells, the number of cells drawn rounded is
  the number \<^verbatim>\<open>Math.floor((totalSquares * curvedPercentage) / 100)\<close> that the code
  computes, with the product and the quotient rounded. For a percentage that is an integer
  this number is the floor of \<open>rows * cols * curvedPercentage / 100\<close>. The effect does
  return as soon as the first \<open>n\<close> draws hit that many different indices. For two rows,
  two columns and percentage 0 it always returns four cells, none rounded, with the ids
  \<^verbatim>\<open>fg-0-0\<close>, \<^verbatim>\<open>fg-0-1\<close>, \<^verbatim>\<open>fg-1-0\<close>, \<^verbatim>\<open>fg-1-1\<close>.
\<close>

theorem foreground_layout:
  assumes "0 \<le> curvedPercentage" and "curvedPercentage \<le> 100" and "unit_draws rs"
  shows
    "(layout_effect rows cols curvedPercentage backgroundRows backgroundCols colors rs
        = Some (fg, bg) \<longrightarrow>
        length fg = rows * cols \<and> distinct (map id_sq fg) \<and>
        (\<forall>r < rows. \<forall>c < cols. id_sq (fg ! (r * cols + c)) = fg_id r c) \<and>
        (rows * cols < 2 ^ 46 \<longrightarrow>
           int (length (filter (\<lambda>sq. shapeVariant sq = Rounded) fg))
             = curved_count rows cols curvedPercentage)) \<and>
     (rows * cols < 2 ^ 46 \<and> curvedPercentage = real p \<longrightarrow>
        curved_count rows cols curvedPercentage
          = \<lfloor>(real (rows * cols) * curvedPercentage) / 100\<rfloor>) \<and>
     (curved_count rows cols curvedPercentage
        \<le> int (card ((\<lambda>r. random_index r (rows * cols)) ` set (stake n rs))) \<longrightarrow>
        layout_effect rows cols curvedPercentage backgroundRows backgroundCols colors rs \<noteq> None) \<and>
     (\<exists>fg bg. layout_effect 2 2 0 backgroundRows backgroundCols colors rs = Some (fg, bg) \<and>
        length fg = 4 \<and>
        map id_sq fg = [''fg-0-0'', ''fg-0-1'', ''fg-1-0'', ''fg-1-1''] \<and>
        filter (\<lambda>sq. shapeVariant sq = Rounded) fg = [])"
proof (intro conjI impI)
  assume eff: "layout_effect rows cols curvedPercentage backgroundRows backgroundCols colors rs
            = Some (fg, bg)"
  from layout_effect_Some [OF this] obtain cur rs1
    where fg: "fg = map (\<lambda>k. fg_square cur colors (k div cols) (k mod cols) k (rs1 !! k))
                      [0..<rows * cols]"
    by blast
  show "length fg = rows * cols" by (simp add: fg)
  show "distinct (map id_sq fg)" unfolding fg fg_grid_ids by (rule fg_ids_distinct)
  show "\<forall>r < rows. \<forall>c < cols. id_sq (fg ! (r * cols + c)) = fg_id r c"
  proof (intro allI impI)
    fix r c assume rc: "r < rows" "c < cols"
    then have "r * cols + c < rows * cols" by (rule cell_index)
    then show "id_sq (fg ! (r * cols + c)) = fg_id r c"
      using rc by (simp add: fg fg_square_def)
  qed
  assume "rows * cols < 2 ^ 46"
  with eff assms
  show "int (length (filter (\<lambda>sq. shapeVariant sq = Rounded) fg))
               = curved_count rows cols curvedPercentage"
    by (rule layout_rounded_count)
next
  assume a: "rows * cols < 2 ^ 46 \<and> curvedPercentage = real p"
  with assms(2) have "p \<le> 100" by simp
  with a show "curved_count rows cols curvedPercentage
          = \<lfloor>(real (rows * cols) * curvedPercentage) / 100\<rfloor>"
    using curved_count_integer [of p rows cols] exact_floor_integer [of rows cols p]
    by simp
next
  assume "curved_count rows cols curvedPercentage
            \<le> int (card ((\<lambda>r. random_index r (rows * cols)) ` set (stake n rs)))"
  then show "layout_effect rows cols curvedPercentage backgroundRows backgroundCols colors rs
               \<noteq> None"
    by (rule layout_effect_returns)
next
  show "\<exists>fg bg. layout_effect 2 2 0 backgroundRows backgroundCols colors rs = Some (fg, bg) \<and>
        length fg = 4 \<and>
        map id_sq fg = [''fg-0-0'', ''fg-0-1'', ''fg-1-0'', ''fg-1-1''] \<and>
        filter (\<lambda>sq. shapeVariant sq = Rounded) fg = []"
    by (rule two_by_two_example)
qed

text \<open>C6 at one row, two columns and 50 percent, where the first draw picks the second cell.\<close>

theorem foreground_layout_witness:
  "(0::real) \<le> 50 \<and> (50::real) \<le> 100 \<and> unit_draws (0.6 ## sconst 0) \<and>
   (1 * 2 :: nat) < 2 ^ 46 \<and>
   layout_effect 1 2 50 0 0 DEFAULT_COLORS (0.6 ## sconst 0) = Some (mixed_1x2, []) \<and>
   length mixed_1x2 = 1 * 2 \<and> distinct (map id_sq mixed_1x2) \<and>
   (0::nat) < 1 \<and> (1::nat) < 2 \<and> id_sq (mixed_1x2 ! (0 * 2 + 1)) = fg_id 0 1 \<and>
   int (length (filter (\<lambda>sq. shapeVariant sq = Rounded) mixed_1x2)) = curved_count 1 2 50 \<and>
   (50::real) = real (50::nat) \<and>
   curved_count 1 2 50 = \<lfloor>(real (1 * 2) * 50) / 100\<rfloor> \<and>
   curved_count 1 2 50
     \<le> int (card ((\<lambda>r. random_index r (1 * 2)) ` set (stake 1 (0.6 ## sconst 0)))) \<and>
   layout_effect 1 2 50 0 0 DEFAULT_COLORS (0.6 ## sconst 0) \<noteq> None"
proof -
  have p: "(0::real) \<le> 50" "(50::real) \<le> 100" by simp_all
  have u: "unit_draws (0.6 ## sconst 0)" by (simp add: unit_draws_SCons unit_draws_sconst)
  have t: "(1 * 2 :: nat) < 2 ^ 46" by simp
  have g: "layout_effect 1 2 50 0 0 DEFAULT_COLORS (0.6 ## sconst 0) = Some (mixed_1x2, [])"
    by (rule sample_grids_generated)
  have c: "curved_count 1 2 50
     \<le> int (card ((\<lambda>r. random_index r (1 * 2)) ` set (stake 1 (0.6 ## sconst 0))))"
    by (simp add: curved_count_samples)
  from foreground_layout [OF p u, of 1 2 0 0 DEFAULT_COLORS mixed_1x2 "[]" 50 1] g c t
  have "length mixed_1x2 = 1 * 2 \<and> distinct (map id_sq mixed_1x2) \<and>
        id_sq (mixed_1x2 ! (0 * 2 + 1)) = fg_id 0 1 \<and>
        int (length (filter (\<lambda>sq. shapeVariant sq = Rounded) mixed_1x2)) = curved_count 1 2 50 \<and>
        curved_count 1 2 50 = \<lfloor>(real (1 * 2) * 50) / 100\<rfloor>"
    by simp
  with p u g c show ?thesis by simp
qed

text \<open>
  Claim C6 as stated fails at a percentage that is not an integer. The percentage here is
  the binary64 value written \<^verbatim>\<open>83.33333333333333\<close>. Over two rows and three columns the
  exact product lies halfway between two binary64 values and is rounded up to 500, so
  the code asks for 5 curved cells and the layout has 5 cells drawn rounded, where the
  floor of \<open>rows * cols * curvedPercentage / 100\<close> is 4.
\<close>

theorem rounded_cells_differ_from_exact_floor:
  "(0::real) \<le> 5864062014805333 / 70368744177664 \<and>
   (5864062014805333 / 70368744177664 :: real) \<le> 100 \<and>
   map_option (rounded_cells \<circ> fst)
     (layout_effect 2 3 (5864062014805333 / 70368744177664) 0 0 DEFAULT_COLORS
        (0 ## 0.2 ## 0.4 ## 0.6 ## 0.8 ## sconst 0)) = Some 5 \<and>
   \<lfloor>real (2 * 3) * (5864062014805333 / 70368744177664) / 100\<rfloor> = 4"
proof -
  let ?p = "5864062014805333 / 70368744177664 :: real"
  let ?rs = "0 ## 0.2 ## 0.4 ## 0.6 ## 0.8 ## sconst (0::real)"
  have loop: "curved_loop (2 * 3) 5 [] ?rs = Some ([0, 1, 2, 3, 4], sconst 0)"
    by (simp add: curved_loop_step curved_loop_exit random_index_def set_add_def)
  have eff: "layout_effect 2 3 ?p 0 0 DEFAULT_COLORS ?rs
      = Some (fst (foreground_cells 2 3 [0, 1, 2, 3, 4] DEFAULT_COLORS (sconst 0)), [])"
    using loop by (simp add: layout_effect_def curved_count_tie background_cells_eq)
  have u: "unit_draws ?rs" by (simp add: unit_draws_SCons unit_draws_sconst)
  have "int (length (filter (\<lambda>sq. shapeVariant sq = Rounded)
           (fst (foreground_cells 2 3 [0, 1, 2, 3, 4] DEFAULT_COLORS (sconst 0)))))
          = curved_count 2 3 ?p"
    by (rule layout_rounded_count [OF eff _ _ u]) simp_all
  then have "rounded_cells (fst (foreground_cells 2 3 [0, 1, 2, 3, 4] DEFAULT_COLORS (sconst 0)))
          = 5"
    by (simp add: rounded_cells_def curved_count_tie)
  with eff show ?thesis by (simp add: curved_count_tie)
qed

text \<open>
  Claim C7. The background loops build \<open>backgroundRows * backgroundCols\<close> cells with
  pairwise distinct ids, none of which has the \<^verbatim>\<open>isCurved\<close> property, so each is drawn
  regular; this is the background layout the effect sets whenever it returns, and it
  returns under the condition given for C6.
\<close>

theorem background_layout:
  "length (fst (background_cells backgroundRows backgroundCols colors rs))
     = backgroundRows * backgroundCols \<and>
   distinct (map id_sq (fst (background_cells backgroundRows backgroundCols colors rs))) \<and>
   (\<forall>sq \<in> set (fst (background_cells backgroundRows backgroundCols colors rs)).
      isCurved sq = None \<and> shapeVariant sq = Regular) \<and>
   (layout_effect rows cols curvedPercentage backgroundRows backgroundCols colors rs'
      = Some (fg, bg) \<longrightarrow>
      length bg = backgroundRows * backgroundCols \<and> distinct (map id_sq bg) \<and>
      (\<forall>sq \<in> set bg. isCurved sq = None \<and> shapeVariant sq = Regular)) \<and>
   (curved_count rows cols curvedPercentage
      \<le> int (card ((\<lambda>r. random_index r (rows * cols)) ` set (stake n rs'))) \<longrightarrow>
      layout_effect rows cols curvedPercentage backgroundRows backgroundCols colors rs' \<noteq> None)"
proof -
  have grid: "length g = backgroundRows * backgroundCols \<and> distinct (map id_sq g) \<and>
      (\<forall>sq \<in> set g. isCurved sq = None \<and> shapeVariant sq = Regular)"
    if "g = map (\<lambda>k. bg_square colors (k div backgroundCols) (k mod backgroundCols) (d k))
              [0..<backgroundRows * backgroundCols]" for g d
  proof (intro conjI)
    show "length g = backgroundRows * backgroundCols" by (simp add: that)
    show "distinct (map id_sq g)" unfolding that bg_grid_ids by (rule bg_ids_distinct)
    show "\<forall>sq \<in> set g. isCurved sq = None \<and> shapeVariant sq = Regular"
      by (auto simp: that shape_bg_square) (simp add: bg_square_def)
  qed
  have 1: "length (fst (background_cells backgroundRows backgroundCols colors rs))
        = backgroundRows * backgroundCols \<and>
      distinct (map id_sq (fst (background_cells backgroundRows backgroundCols colors rs))) \<and>
      (\<forall>sq \<in> set (fst (background_cells backgroundRows backgroundCols colors rs)).
         isCurved sq = None \<and> shapeVariant sq = Regular)"
    by (rule grid [where d = "snth rs"]) (simp add: background_cells_eq)
  have 2: "length bg = backgroundRows * backgroundCols \<and> distinct (map id_sq bg) \<and>
      (\<forall>sq \<in> set bg. isCurved sq = None \<and> shapeVariant sq = Regular)"
    if "layout_effect rows cols curvedPercentage backgroundRows backgroundCols colors rs'
          = Some (fg, bg)"
  proof -
    from layout_effect_Some [OF that] obtain rs1
      where "bg = map (\<lambda>k. bg_square colors (k div backgroundCols) (k mod backgroundCols)
                             (sdrop (rows * cols) rs1 !! k))
                    [0..<backgroundRows * backgroundCols]"
      by blast
    then show ?thesis by (rule grid)
  qed
  have 3: "layout_effect rows cols curvedPercentage backgroundRows backgroundCols colors rs' \<noteq> None"
    if "curved_count rows cols curvedPercentage
          \<le> int (card ((\<lambda>r. random_index r (rows * cols)) ` set (stake n rs')))"
    using that by (rule layout_effect_returns)
  from 1 2 3 show ?thesis by blast
qed

text \<open>C7 at a background of one row and two columns.\<close>

theorem background_layout_witness:
  "fst (background_cells 1 2 DEFAULT_COLORS (sconst 0)) = background_1x2 \<and>
   background_1x2 ! 1 \<in> set background_1x2 \<and>
   isCurved (background_1x2 ! 1) = None \<and> shapeVariant (background_1x2 ! 1) = Regular \<and>
   layout_effect 1 2 0 1 2 DEFAULT_COLORS (sconst 0) = Some (regular_1x2, background_1x2) \<and>
   length background_1x2 = 1 * 2 \<and> distinct (map id_sq background_1x2) \<and>
   curved_count 1 2 0
     \<le> int (card ((\<lambda>r. random_index r (1 * 2)) ` set (stake 0 (sconst 0)))) \<and>
   layout_effect 1 2 0 1 2 DEFAULT_COLORS (sconst 0) \<noteq> None"
proof -
  have b: "fst (background_cells 1 2 DEFAULT_COLORS (sconst 0)) = background_1x2"
    by (simp add: background_cells_eq upt_2 bg_square_def ids_small
        getRandomFrom_def js_nth_def random_index_def DEFAULT_COLORS_def background_1x2_def)
  have m: "background_1x2 ! 1 \<in> set background_1x2" by (simp add: background_1x2_def)
  have g: "layout_effect 1 2 0 1 2 DEFAULT_COLORS (sconst 0) = Some (regular_1x2, background_1x2)"
    by (rule background_generated)
  have c: "curved_count 1 2 0
     \<le> int (card ((\<lambda>r. random_index r (1 * 2)) ` set (stake 0 (sconst 0))))"
    by (simp add: curved_count_samples)
  from background_layout [of 1 2 DEFAULT_COLORS "sconst 0" 1 2 0 "sconst 0" regular_1x2
      background_1x2 0] b m g c
  show ?thesis by simp
qed

section \<open>What a round adds (C8, C9, C10)\<close>

text \<open>
  Claim C8. With \<^verbatim>\<open>maxActiveSquares = 0\<close> the regular path leaves the set as it was, so no
  regular cell that was inactive is active after the round. The curved path still runs:
  when an inactive curved cell exists and the draw compared with 0.3 is below it, the
  round appends the id of one inactive curved cell; when that draw is not below 0.3 the
  round changes nothing.
\<close>

theorem zero_cap_activates_only_curved:
  "fst (fg_regular_path squares 0 activeSquares rs) = activeSquares \<and>
   (\<forall>sq \<in> set squares.
      distinct (map id_sq squares) \<and> \<not> truthy (isCurved sq) \<and> id_sq sq \<notin> set activeSquares \<longrightarrow>
      id_sq sq \<notin> set (fst (fg_round squares 0 activeSquares rs))) \<and>
   ((\<exists>c \<in> set squares. truthy (isCurved c) \<and> id_sq c \<notin> set activeSquares) \<and>
    shd (snd (fg_regular_path squares 0 activeSquares rs)) < 0.3 \<and>
    0 \<le> shd (stl (snd (fg_regular_path squares 0 activeSquares rs))) \<and>
    shd (stl (snd (fg_regular_path squares 0 activeSquares rs))) < 1 \<longrightarrow>
    (\<exists>c \<in> set squares. truthy (isCurved c) \<and> id_sq c \<notin> set activeSquares \<and>
       fst (fg_round squares 0 activeSquares rs) = activeSquares @ [id_sq c])) \<and>
   (\<not> shd (snd (fg_regular_path squares 0 activeSquares rs)) < 0.3 \<longrightarrow>
      fst (fg_round squares 0 activeSquares rs) = activeSquares)"
proof -
  let ?rs = "snd (fg_regular_path squares 0 activeSquares rs)"
  let ?new = "fst (fg_round squares 0 activeSquares rs)"
  have new: "?new = fst (fg_curved_path squares activeSquares activeSquares ?rs)"
    by (rule fg_round_zero)
  have a: "fst (fg_regular_path squares 0 activeSquares rs) = activeSquares"
    by (rule fg_regular_path_zero)
  have b: "id_sq sq \<notin> set ?new"
    if sq: "sq \<in> set squares" and d: "distinct (map id_sq squares)"
      and reg: "\<not> truthy (isCurved sq)" and inact: "id_sq sq \<notin> set activeSquares" for sq
  proof
    assume mem: "id_sq sq \<in> set ?new"
    from fg_curved_path_cases [of squares activeSquares activeSquares ?rs]
    consider "?new = activeSquares"
      | c where "c \<in> set squares" "truthy (isCurved c)" "?new = set_add (id_sq c) activeSquares"
      unfolding new by blast
    then show False
    proof cases
      case 1
      with mem inact show False by simp
    next
      case 2
      with mem inact have "id_sq sq = id_sq c" by (simp add: set_set_add)
      moreover from d have "inj_on id_sq (set squares)" by (simp add: distinct_map)
      ultimately have "sq = c" using sq 2(1) by (simp add: inj_on_eq_iff)
      with reg 2(2) show False by simp
    qed
  qed
  have c: "\<exists>c \<in> set squares. truthy (isCurved c) \<and> id_sq c \<notin> set activeSquares \<and>
              ?new = activeSquares @ [id_sq c]"
    if "\<exists>c \<in> set squares. truthy (isCurved c) \<and> id_sq c \<notin> set activeSquares"
      and "shd ?rs < 0.3" and "0 \<le> shd (stl ?rs)" and "shd (stl ?rs) < 1"
  proof -
    from fg_curved_path_fires [OF that, of activeSquares]
    obtain c where "c \<in> set squares" "truthy (isCurved c)" "id_sq c \<notin> set activeSquares"
      "?new = set_add (id_sq c) activeSquares"
      unfolding new by blast
    then show ?thesis by (auto simp: set_add_def)
  qed
  have d: "?new = activeSquares" if "\<not> shd ?rs < 0.3"
    unfolding new using that by (rule fg_curved_path_skips)
  from a b c d show ?thesis by blast
qed

text \<open>C8 on a grid with one regular and one curved cell, for a low and for a high draw.\<close>

theorem zero_cap_activates_only_curved_witness:
  "mixed_1x2 ! 0 \<in> set mixed_1x2 \<and> distinct (map id_sq mixed_1x2) \<and>
   \<not> truthy (isCurved (mixed_1x2 ! 0)) \<and> id_sq (mixed_1x2 ! 0) \<notin> set [] \<and>
   id_sq (mixed_1x2 ! 0) \<notin> set (fst (fg_round mixed_1x2 0 [] (sconst 0.1))) \<and>
   mixed_1x2 ! 1 \<in> set mixed_1x2 \<and> truthy (isCurved (mixed_1x2 ! 1)) \<and>
   id_sq (mixed_1x2 ! 1) \<notin> set [] \<and>
   shd (snd (fg_regular_path mixed_1x2 0 [] (sconst 0.1))) < 0.3 \<and>
   0 \<le> shd (stl (snd (fg_regular_path mixed_1x2 0 [] (sconst 0.1)))) \<and>
   shd (stl (snd (fg_regular_path mixed_1x2 0 [] (sconst 0.1)))) < 1 \<and>
   fst (fg_round mixed_1x2 0 [] (sconst 0.1)) = [] @ [''fg-0-1''] \<and>
   \<not> shd (snd (fg_regular_path mixed_1x2 0 [] (sconst 0.5))) < 0.3 \<and>
   fst (fg_round mixed_1x2 0 [] (sconst 0.5)) = []"
  using zero_cap_activates_only_curved [of mixed_1x2 "[]" "sconst 0.1"]
    zero_cap_activates_only_curved [of mixed_1x2 "[]" "sconst 0.5"]
  by (simp add: mixed_1x2_def round_defs)

text \<open>
  Claim C9. The set a tick commits contains the set the tick started from, in both layers:
  for the round itself, and for the state cell before and after the tick (a background
  tick that returns early commits nothing and leaves the cell as it was).
\<close>

theorem activation_round_monotone:
  "set activeSquares \<subseteq> set (fst (fg_round squares maxActiveSquares activeSquares rs)) \<and>
   (bg_round backgroundSquares maxBackgroundActive activeBackgroundSquares rs = Some res \<longrightarrow>
      set activeBackgroundSquares \<subseteq> set (fst res)) \<and>
   set (activeIds s) \<subseteq> set (activeIds (fg_event squares maxActiveSquares s (Tick rs))) \<and>
   set (activeIds s)
     \<subseteq> set (activeIds (bg_event backgroundSquares maxBackgroundActive s (Tick rs)))"
proof -
  have fg: "set a \<subseteq> set (fst (fg_round squares maxActiveSquares a rs))" for a
    by (rule fg_round_mono)
  have bg: "set b \<subseteq> set (fst r)"
    if "bg_round backgroundSquares maxBackgroundActive b rs = Some r" for b r
    using that by (rule bg_round_mono)
  have "set (activeIds s) \<subseteq> set (activeIds (fg_event squares maxActiveSquares s (Tick rs)))"
    using fg [of "activeIds s"] by (simp add: commit_def)
  moreover have "set (activeIds s)
      \<subseteq> set (activeIds (bg_event backgroundSquares maxBackgroundActive s (Tick rs)))"
  proof (cases "bg_round backgroundSquares maxBackgroundActive (activeIds s) rs")
    case None
    then show ?thesis by simp
  next
    case (Some r)
    then show ?thesis using bg [OF Some] by (simp add: commit_def)
  qed
  ultimately show ?thesis using fg bg by blast
qed

text \<open>C9 at a background round that starts from one active id.\<close>

theorem activation_round_monotone_witness:
  "bg_round background_1x2 3 [''bg-0-1''] (sconst 0) = Some ([''bg-0-1'', ''bg-0-0''], sconst 0) \<and>
   set [''bg-0-1''] \<subseteq> set (fst ([''bg-0-1'', ''bg-0-0''], sconst (0::real)))"
  using activation_round_monotone
    [of "[]" "[]" 0 "sconst 0" background_1x2 3 "[''bg-0-1'']" "([''bg-0-1'', ''bg-0-0''], sconst 0)"]
  by (simp add: background_1x2_def round_defs)

text \<open>
  Claim C10. Whatever the draws in the unit interval, a foreground round makes the set
  grow by at most four ids and a background round by at most two; for a set without
  repetitions that is the number of ids the round newly activates.
\<close>

theorem round_adds_few:
  assumes "unit_draws rs"
  shows "length (fst (fg_round squares maxActiveSquares activeSquares rs))
           \<le> length activeSquares + 4 \<and>
         (distinct activeSquares \<longrightarrow>
            card (set (fst (fg_round squares maxActiveSquares activeSquares rs))
                  - set activeSquares) \<le> 4) \<and>
         (bg_round backgroundSquares maxBackgroundActive activeBackgroundSquares rs = Some res \<longrightarrow>
            length (fst res) \<le> length activeBackgroundSquares + 2 \<and>
            (distinct activeBackgroundSquares \<longrightarrow>
               card (set (fst res) - set activeBackgroundSquares) \<le> 2))"
proof -
  from assms have r: "shd rs < 1" by (simp add: unit_draws_shd)
  let ?new = "fst (fg_round squares maxActiveSquares activeSquares rs)"
  have 1: "length ?new \<le> length activeSquares + 4"
    by (rule fg_round_adds [OF r])
  have 2: "card (set ?new - set activeSquares) \<le> 4" if d: "distinct activeSquares"
  proof -
    have "card (set ?new - set activeSquares) = length ?new - length activeSquares"
      by (rule new_ids_card [OF d fg_round_distinct [OF d] fg_round_mono])
    with 1 show ?thesis by simp
  qed
  have 3: "length (fst res) \<le> length activeBackgroundSquares + 2"
    if b: "bg_round backgroundSquares maxBackgroundActive activeBackgroundSquares rs = Some res"
    by (rule bg_round_adds [OF r b])
  have 4: "card (set (fst res) - set activeBackgroundSquares) \<le> 2"
    if b: "bg_round backgroundSquares maxBackgroundActive activeBackgroundSquares rs = Some res"
      and d: "distinct activeBackgroundSquares"
  proof -
    have "card (set (fst res) - set activeBackgroundSquares)
            = length (fst res) - length activeBackgroundSquares"
      by (rule new_ids_card [OF d bg_round_distinct [OF b d] bg_round_mono [OF b]])
    with 3 [OF b] show ?thesis by simp
  qed
  from 1 2 3 4 show ?thesis by blast
qed

text \<open>C10 at a round of each layer over the two-cell grid.\<close>

theorem round_adds_few_witness:
  "unit_draws (sconst 0) \<and> distinct [''fg-0-1''] \<and> distinct [''bg-0-1''] \<and>
   bg_round background_1x2 3 [''bg-0-1''] (sconst 0) = Some ([''bg-0-1'', ''bg-0-0''], sconst 0) \<and>
   length (fst (fg_round regular_1x2 8 [''fg-0-1''] (sconst 0))) \<le> length [''fg-0-1''] + 4 \<and>
   card (set (fst (fg_round regular_1x2 8 [''fg-0-1''] (sconst 0))) - set [''fg-0-1'']) \<le> 4 \<and>
   length (fst ([''bg-0-1'', ''bg-0-0''], sconst (0::real))) \<le> length [''bg-0-1''] + 2 \<and>
   card (set (fst ([''bg-0-1'', ''bg-0-0''], sconst (0::real))) - set [''bg-0-1'']) \<le> 2"
proof -
  have u: "unit_draws (sconst 0)" by (simp add: unit_draws_sconst)
  have b: "bg_round background_1x2 3 [''bg-0-1''] (sconst 0) = Some ([''bg-0-1'', ''bg-0-0''], sconst 0)"
    by (simp add: background_1x2_def round_defs)
  show ?thesis
    using u b round_adds_few [OF u, of regular_1x2 8 "[''fg-0-1'']" background_1x2 3 "[''bg-0-1'']"
      "([''bg-0-1'', ''bg-0-0''], sconst 0)"]
    by simp
qed

end
